theory Spec2Isabelle
  imports Main "HOL-Library.Multiset"
begin

section \<open>The schema migration engine of internal/infra/postgres/postgres.go\<close>

text \<open>
  The engine discovers versioned SQL files in a directory, asks a ledger table which
  versions are already applied, and applies the others in ascending order.
  Go strings are byte strings, as \<^typ>\<open>string\<close> is; Go's \<open>int\<close> is modelled by
  \<^typ>\<open>int\<close> with the range check of \<open>strconv.Atoi\<close> written out.
  \<open>log.Fatalf\<close> ends the process: every function that can reach it returns the fatal
  error together with the state of the world at that moment.
\<close>

subsection \<open>Library functions used by discovery\<close>

text \<open>\<open>strings.HasSuffix(s, suffix)\<close>.\<close>

definition HasSuffix :: "string \<Rightarrow> string \<Rightarrow> bool" where
  "HasSuffix s suffix =
     (length suffix \<le> length s \<and> drop (length s - length suffix) s = suffix)"

text \<open>
  \<open>strings.SplitN(s, sep, 2)\<close> for a one-byte separator: the text before the first
  separator and the text after it, or the whole string alone when there is no separator.
\<close>

definition SplitN2 :: "string \<Rightarrow> char \<Rightarrow> string list" where
  "SplitN2 s sep =
     (if sep \<in> set s
      then [takeWhile (\<lambda>c. c \<noteq> sep) s, tl (dropWhile (\<lambda>c. c \<noteq> sep) s)]
      else [s])"

text \<open>
  \<open>strconv.Atoi\<close>, that is \<open>ParseInt(s, 10, 0)\<close>: an optional sign, then at least
  one decimal digit and nothing else; the value must fit the signed \<open>int\<close>, whose size
  \<open>strconv.IntSize\<close> is 64 on the 64-bit platforms the service is built for.
  \<open>None\<close> stands for a non-nil error (syntax or range).
\<close>

definition intSize :: nat where
  "intSize = 64"

definition isDigit :: "char \<Rightarrow> bool" where
  "isDigit c = (48 \<le> (of_char c :: nat) \<and> (of_char c :: nat) \<le> 57)"

fun digitsValue :: "nat \<Rightarrow> string \<Rightarrow> nat" where
  "digitsValue n [] = n"
| "digitsValue n (c # cs) = digitsValue (n * 10 + (of_char c - 48)) cs"

definition Atoi :: "string \<Rightarrow> int option" where
  "Atoi s =
     (if s = [] then None
      else
        let neg = (hd s = CHR ''-'');
            ds = (if hd s = CHR ''+'' \<or> hd s = CHR ''-'' then tl s else s)
        in if ds = [] \<or> \<not> list_all isDigit ds then None
           else
             let un = digitsValue 0 ds
             in if \<not> neg \<and> un \<ge> 2 ^ (intSize - 1) then None
                else if neg \<and> un > 2 ^ (intSize - 1) then None
                else Some (if neg then - int un else int un))"

text \<open>
  \<open>filepath.Join(dir, name)\<close> for a clean directory path and the name of one of its
  entries (a single path element other than \<open>.\<close> and \<open>..\<close>), where cleaning the
  joined path changes nothing.
\<close>

definition Join :: "string \<Rightarrow> string \<Rightarrow> string" where
  "Join dir name = dir @ ''/'' @ name"

subsection \<open>Data\<close>

record migrationFile =
  Version :: int
  Name :: string
  Path :: string

text \<open>What the code reads of an \<open>os.FileInfo\<close>: \<open>Name()\<close> and \<open>IsDir()\<close>.\<close>

record fileInfo =
  fiName :: string
  IsDir :: bool

text \<open>
  The file system as the engine reads it: \<open>ioutil.ReadDir\<close> and \<open>ioutil.ReadFile\<close>,
  \<open>None\<close> for a non-nil error.
\<close>

record fsys =
  ReadDir :: "string \<Rightarrow> fileInfo list option"
  ReadFile :: "string \<Rightarrow> string option"

text \<open>The lines written by \<open>log.Printf\<close> and \<open>log.Println\<close>, one constructor per call.\<close>

datatype logmsg =
    SkipNoPrefix string
  | SkipInvalidPrefix string
  | AlreadyApplied int string
  | MigrationsCompleted

text \<open>The calls of \<open>log.Fatalf\<close>, one constructor per call, with the value it prints.\<close>

datatype fatal =
    FailedReadDir
  | FailedEnsureTable
  | FailedCheck int
  | FailedReadFile string
  | FailedExecute string
  | FailedRecord int

subsection \<open>Discovery\<close>

definition toMigrationFile :: "string \<Rightarrow> fileInfo \<Rightarrow> migrationFile option \<times> logmsg list" where
  "toMigrationFile dir f =
     (if IsDir f \<or> \<not> HasSuffix (fiName f) ''.sql'' then (None, [])
      else
        let parts = SplitN2 (fiName f) (CHR ''_'')
        in if length parts < 2 then (None, [SkipNoPrefix (fiName f)])
           else
             (case Atoi (hd parts) of
                None \<Rightarrow> (None, [SkipInvalidPrefix (fiName f)])
              | Some v \<Rightarrow>
                  (Some \<lparr>Version = v, Name = fiName f, Path = Join dir (fiName f)\<rparr>, [])))"

text \<open>
  The loop of \<open>loadMigrationFiles\<close>: the accepted entries in listing order, and the
  diagnostics in the order they are printed.
\<close>

fun collectMigrations :: "string \<Rightarrow> fileInfo list \<Rightarrow> migrationFile list \<times> logmsg list" where
  "collectMigrations dir [] = ([], [])"
| "collectMigrations dir (f # files) =
     (case toMigrationFile dir f of
        (r, l) \<Rightarrow>
          (case collectMigrations dir files of
             (ms, ls) \<Rightarrow> ((case r of None \<Rightarrow> ms | Some mf \<Rightarrow> mf # ms), l @ ls)))"

text \<open>
  \<open>sort.Slice\<close> is not stable and its algorithm is the library's business. The call
  \<open>sort.Slice(migrations, func(i, j) { Version[i] < Version[j] })\<close> is a parameter
  \<open>srt\<close> of discovery; what the library promises of it is \<open>sortsByVersion\<close>: the
  result is a rearrangement of the slice in which no element is followed by one of
  smaller version.
\<close>

definition sortsByVersion :: "(migrationFile list \<Rightarrow> migrationFile list) \<Rightarrow> bool" where
  "sortsByVersion srt =
     (\<forall>ms. mset (srt ms) = mset ms \<and> sorted_wrt (\<lambda>a b. \<not> Version b < Version a) (srt ms))"

text \<open>One such sort: insertion by version, which is what the library runs on short slices.\<close>

definition sortSlice :: "migrationFile list \<Rightarrow> migrationFile list" where
  "sortSlice ms = sort_key Version ms"

definition loadMigrationFiles ::
  "(migrationFile list \<Rightarrow> migrationFile list) \<Rightarrow> fsys \<Rightarrow> string
     \<Rightarrow> fatal + (migrationFile list \<times> logmsg list)" where
  "loadMigrationFiles srt fs dir =
     (case ReadDir fs dir of
        None \<Rightarrow> Inl FailedReadDir
      | Some files \<Rightarrow>
          (case collectMigrations dir files of (ms, ls) \<Rightarrow> Inr (srt ms, ls)))"

subsection \<open>The store\<close>

text \<open>
  A row of \<open>app_schema_migrations\<close>: \<open>version INT PRIMARY KEY\<close> and
  \<open>applied_at TIMESTAMP NOT NULL DEFAULT NOW()\<close>, \<open>None\<close> standing for SQL's NULL.
\<close>

record ledgerRow =
  version :: int
  applied_at :: "nat option"

text \<open>
  The calls the engine makes on the store. The body of a migration is sent as text; the
  descriptor it was read for is kept beside it.
\<close>

datatype call =
    CallEnsureTable
  | CallCheck int
  | CallExec migrationFile string
  | CallRecord int

text \<open>
  The world the engine runs in. The store is opaque to the engine, so the model keeps
  what the engine can observe of it:
  \<^item> \<open>ledger\<close>: the rows of \<open>app_schema_migrations\<close>, oldest first, \<open>None\<close> while the
    table does not exist;
  \<^item> \<open>bodies\<close>: the migration bodies the store has executed, oldest first (the schema);
  \<^item> \<open>accepts\<close>: whether the store, having executed these bodies, executes this one
    without error. Migration bodies are taken not to touch \<open>app_schema_migrations\<close>;
  \<^item> \<open>now\<close>: the store's clock, read by \<open>DEFAULT NOW()\<close>;
  \<^item> \<open>faults\<close>: for each coming call on the store, whether it fails for a reason of
    the store's own (connection lost, timeout); no entry means no such failure;
  \<^item> \<open>trace\<close>: every call made on the store so far, in order, each with whether it
    returned without error;
  \<^item> \<open>logs\<close>: the lines logged so far.
\<close>

record world =
  ledger :: "ledgerRow list option"
  bodies :: "string list"
  accepts :: "string list \<Rightarrow> string \<Rightarrow> bool"
  now :: nat
  faults :: "bool list"
  trace :: "(call \<times> bool) list"
  logs :: "logmsg list"

text \<open>Each call on the store consumes the next fault entry and is written to the trace.\<close>

definition nextFault :: "world \<Rightarrow> bool \<times> world" where
  "nextFault w = (faults w \<noteq> [] \<and> hd (faults w), w\<lparr>faults := tl (faults w)\<rparr>)"

definition traced :: "call \<Rightarrow> bool \<Rightarrow> world \<Rightarrow> world" where
  "traced c ok w = w\<lparr>trace := trace w @ [(c, ok)]\<rparr>"

text \<open>\<open>CREATE TABLE IF NOT EXISTS app_schema_migrations (...)\<close>; the result is \<open>err != nil\<close>.\<close>

definition execCreateTable :: "world \<Rightarrow> bool \<times> world" where
  "execCreateTable w =
     (case nextFault w of
        (fault, w1) \<Rightarrow>
          if fault then (True, traced CallEnsureTable False w1)
          else (False,
                traced CallEnsureTable True
                  (w1\<lparr>ledger := Some (case ledger w1 of None \<Rightarrow> [] | Some rows \<Rightarrow> rows)\<rparr>)))"

text \<open>\<open>db.Exec(string(content))\<close>; the result is \<open>err != nil\<close>.\<close>

definition execBody :: "migrationFile \<Rightarrow> string \<Rightarrow> world \<Rightarrow> bool \<times> world" where
  "execBody m content w =
     (case nextFault w of
        (fault, w1) \<Rightarrow>
          if fault \<or> \<not> accepts w1 (bodies w1) content
          then (True, traced (CallExec m content) False w1)
          else (False, traced (CallExec m content) True (w1\<lparr>bodies := bodies w1 @ [content]\<rparr>)))"

text \<open>
  \<open>SELECT EXISTS(SELECT 1 FROM app_schema_migrations WHERE version = $1)\<close>;
  \<open>None\<close> is a non-nil error, which a missing table gives too.
\<close>

definition queryExists :: "int \<Rightarrow> world \<Rightarrow> bool option \<times> world" where
  "queryExists v w =
     (case nextFault w of
        (fault, w1) \<Rightarrow>
          if fault then (None, traced (CallCheck v) False w1)
          else
            (case ledger w1 of
               None \<Rightarrow> (None, traced (CallCheck v) False w1)
             | Some rows \<Rightarrow> (Some (v \<in> set (map version rows)), traced (CallCheck v) True w1)))"

text \<open>
  \<open>INSERT INTO app_schema_migrations (version) VALUES ($1)\<close>; the result is
  \<open>err != nil\<close>. The primary key refuses a version that is present; \<open>applied_at\<close>
  takes its default.
\<close>

definition execInsert :: "int \<Rightarrow> world \<Rightarrow> bool \<times> world" where
  "execInsert v w =
     (case nextFault w of
        (fault, w1) \<Rightarrow>
          if fault then (True, traced (CallRecord v) False w1)
          else
            (case ledger w1 of
               None \<Rightarrow> (True, traced (CallRecord v) False w1)
             | Some rows \<Rightarrow>
                 if v \<in> set (map version rows) then (True, traced (CallRecord v) False w1)
                 else (False,
                       traced (CallRecord v) True
                         (w1\<lparr>ledger :=
                               Some (rows @ [\<lparr>version = v, applied_at = Some (now w1)\<rparr>])\<rparr>))))"

subsection \<open>Ledger and applier\<close>

definition ensureMigrationsTable :: "world \<Rightarrow> fatal option \<times> world" where
  "ensureMigrationsTable w =
     (case execCreateTable w of
        (err, w1) \<Rightarrow> if err then (Some FailedEnsureTable, w1) else (None, w1))"

definition migrationAlreadyApplied :: "int \<Rightarrow> world \<Rightarrow> (fatal + bool) \<times> world" where
  "migrationAlreadyApplied v w =
     (case queryExists v w of
        (None, w1) \<Rightarrow> (Inl (FailedCheck v), w1)
      | (Some exists, w1) \<Rightarrow> (Inr exists, w1))"

definition applyMigration :: "fsys \<Rightarrow> migrationFile \<Rightarrow> world \<Rightarrow> fatal option \<times> world" where
  "applyMigration fs m w =
     (case ReadFile fs (Path m) of
        None \<Rightarrow> (Some (FailedReadFile (Path m)), w)
      | Some content \<Rightarrow>
          (case execBody m content w of
             (err, w1) \<Rightarrow>
               if err then (Some (FailedExecute (Name m)), w1)
               else
                 (case execInsert (Version m) w1 of
                    (err2, w2) \<Rightarrow>
                      if err2 then (Some (FailedRecord (Version m)), w2) else (None, w2))))"

fun applyPendingMigrations :: "fsys \<Rightarrow> migrationFile list \<Rightarrow> world \<Rightarrow> fatal option \<times> world" where
  "applyPendingMigrations fs [] w = (None, w)"
| "applyPendingMigrations fs (m # ms) w =
     (case migrationAlreadyApplied (Version m) w of
        (Inl e, w1) \<Rightarrow> (Some e, w1)
      | (Inr True, w1) \<Rightarrow>
          applyPendingMigrations fs ms
            (w1\<lparr>logs := logs w1 @ [AlreadyApplied (Version m) (Name m)]\<rparr>)
      | (Inr False, w1) \<Rightarrow>
          (case applyMigration fs m w1 of
             (Some e, w2) \<Rightarrow> (Some e, w2)
           | (None, w2) \<Rightarrow> applyPendingMigrations fs ms w2))"

definition migrationsDir :: string where
  "migrationsDir = ''database/migrations''"

definition RunMigrations ::
  "(migrationFile list \<Rightarrow> migrationFile list) \<Rightarrow> fsys \<Rightarrow> world \<Rightarrow> fatal option \<times> world" where
  "RunMigrations srt fs w =
     (case ensureMigrationsTable w of
        (Some e, w1) \<Rightarrow> (Some e, w1)
      | (None, w1) \<Rightarrow>
          (case loadMigrationFiles srt fs migrationsDir of
             Inl e \<Rightarrow> (Some e, w1)
           | Inr (migrations, ls) \<Rightarrow>
               (case applyPendingMigrations fs migrations (w1\<lparr>logs := logs w1 @ ls\<rparr>) of
                  (Some e, w2) \<Rightarrow> (Some e, w2)
                | (None, w2) \<Rightarrow> (None, w2\<lparr>logs := logs w2 @ [MigrationsCompleted]\<rparr>))))"

subsection \<open>A sample directory\<close>

text \<open>
  The scenario of the specification, with entries that discovery leaves out: two
  migrations listed out of order, a file that is no SQL file, a subdirectory, a file with
  no separator and one whose prefix is no number.
\<close>

definition sampleFiles :: "fileInfo list" where
  "sampleFiles =
     [\<lparr>fiName = ''002_add_email_index.sql'', IsDir = False\<rparr>,
      \<lparr>fiName = ''README.md'', IsDir = False\<rparr>,
      \<lparr>fiName = ''001_create_users.sql'', IsDir = False\<rparr>,
      \<lparr>fiName = ''old_1.sql'', IsDir = True\<rparr>,
      \<lparr>fiName = ''1.sql'', IsDir = False\<rparr>,
      \<lparr>fiName = ''v3_drop.sql'', IsDir = False\<rparr>]"

definition sampleFs :: fsys where
  "sampleFs =
     \<lparr>ReadDir = (\<lambda>d. if d = migrationsDir then Some sampleFiles else None),
      ReadFile = (\<lambda>p.
        if p = ''database/migrations/001_create_users.sql'' then Some ''CREATE TABLE users''
        else if p = ''database/migrations/002_add_email_index.sql'' then Some ''CREATE INDEX email''
        else None)\<rparr>"

subsection \<open>Notions the properties are stated with\<close>

text \<open>
  A decimal numeral as the interface description writes a version: an optional sign and
  at least one digit, nothing else. Its size is not bounded here.
\<close>

definition decimalNumeral :: "string \<Rightarrow> bool" where
  "decimalNumeral s =
     (case s of
        [] \<Rightarrow> False
      | c # cs \<Rightarrow>
          if c = CHR ''+'' \<or> c = CHR ''-'' then cs \<noteq> [] \<and> list_all isDigit cs
          else list_all isDigit s)"

text \<open>
  A well-formed migration file name \<open><decimal-version>_<label>.sql\<close>: the suffix,
  a separator, and before the first separator an unsigned decimal number that an
  \<open>int\<close> holds; \<open>nameVersion\<close> is that number.
\<close>

definition versionPrefix :: "string \<Rightarrow> string" where
  "versionPrefix n = takeWhile (\<lambda>c. c \<noteq> CHR ''_'') n"

definition nameVersion :: "string \<Rightarrow> int" where
  "nameVersion n = int (digitsValue 0 (versionPrefix n))"

definition wellFormedName :: "string \<Rightarrow> bool" where
  "wellFormedName n =
     (HasSuffix n ''.sql'' \<and> CHR ''_'' \<in> set n \<and> versionPrefix n \<noteq> []
      \<and> list_all isDigit (versionPrefix n)
      \<and> digitsValue 0 (versionPrefix n) < 2 ^ (intSize - 1))"

text \<open>A directory holding one file whose prefix carries a minus sign.\<close>

definition signedFs :: fsys where
  "signedFs =
     \<lparr>ReadDir = (\<lambda>d. if d = migrationsDir
                      then Some [\<lparr>fiName = ''-5_rollback.sql'', IsDir = False\<rparr>] else None),
      ReadFile = (\<lambda>p. None)\<rparr>"

text \<open>
  Three well-formed migrations, listed out of order; the file system takes the listing
  as a parameter, so that the same files can be listed in another order.
\<close>

definition threeFiles :: "fileInfo list" where
  "threeFiles =
     [\<lparr>fiName = ''3_add_index.sql'', IsDir = False\<rparr>,
      \<lparr>fiName = ''1_init.sql'', IsDir = False\<rparr>,
      \<lparr>fiName = ''2_add_column.sql'', IsDir = False\<rparr>]"

definition threeFs :: "fileInfo list \<Rightarrow> fsys" where
  "threeFs listing =
     \<lparr>ReadDir = (\<lambda>d. if d = migrationsDir then Some listing else None),
      ReadFile = (\<lambda>p.
        if p = ''database/migrations/1_init.sql'' then Some ''CREATE TABLE t''
        else if p = ''database/migrations/2_add_column.sql'' then Some ''ALTER TABLE t''
        else if p = ''database/migrations/3_add_index.sql'' then Some ''CREATE INDEX i''
        else None)\<rparr>"

text \<open>
  Observations on a run: the versions the ledger holds, the calls made on the store
  between two moments, the rows the ledger has gained between two moments, and the kinds
  of call that change the store.
\<close>

definition recorded :: "world \<Rightarrow> int list" where
  "recorded w = (case ledger w of None \<Rightarrow> [] | Some rows \<Rightarrow> map version rows)"

definition since :: "world \<Rightarrow> world \<Rightarrow> (call \<times> bool) list" where
  "since w w' = drop (length (trace w)) (trace w')"

definition rowsOf :: "world \<Rightarrow> ledgerRow list" where
  "rowsOf w = (case ledger w of None \<Rightarrow> [] | Some rows \<Rightarrow> rows)"

definition appended :: "world \<Rightarrow> world \<Rightarrow> ledgerRow list" where
  "appended w w' = drop (length (rowsOf w)) (rowsOf w')"

fun isExecFor :: "int \<Rightarrow> call \<Rightarrow> bool" where
  "isExecFor v (CallExec m content) = (Version m = v)"
| "isExecFor v c = False"

fun isWrite :: "call \<Rightarrow> bool" where
  "isWrite (CallExec m content) = True"
| "isWrite (CallRecord v) = True"
| "isWrite c = False"

text \<open>
  A store for the three migrations: the table can be created once, the column and the
  index can be added once and only to an existing table, and any other text is no SQL.
  The world starts without the ledger table.
\<close>

definition sqlAccepts :: "string list \<Rightarrow> string \<Rightarrow> bool" where
  "sqlAccepts executed b =
     (if b = ''CREATE TABLE t'' then b \<notin> set executed
      else if b = ''ALTER TABLE t'' \<or> b = ''CREATE INDEX i''
      then ''CREATE TABLE t'' \<in> set executed \<and> b \<notin> set executed
      else False)"

definition freshWorld :: "bool list \<Rightarrow> world" where
  "freshWorld fl =
     \<lparr>ledger = None, bodies = [], accepts = sqlAccepts, now = 1000, faults = fl,
      trace = [], logs = []\<rparr>"

text \<open>The same three files, the second with a body that is no SQL.\<close>

definition brokenFs :: fsys where
  "brokenFs =
     \<lparr>ReadDir = ReadDir (threeFs threeFiles),
      ReadFile = (\<lambda>p.
        if p = ''database/migrations/2_add_column.sql'' then Some ''ALTER TABEL t''
        else ReadFile (threeFs threeFiles) p)\<rparr>"

text \<open>
  The descriptors of the three files, a world whose ledger table exists and is empty, and
  the world a first complete run leaves behind when it starts from \<open>freshWorld []\<close>.
\<close>

definition initMigration :: migrationFile where
  "initMigration =
     \<lparr>Version = 1, Name = ''1_init.sql'', Path = ''database/migrations/1_init.sql''\<rparr>"

definition columnMigration :: migrationFile where
  "columnMigration =
     \<lparr>Version = 2, Name = ''2_add_column.sql'',
      Path = ''database/migrations/2_add_column.sql''\<rparr>"

definition indexMigration :: migrationFile where
  "indexMigration =
     \<lparr>Version = 3, Name = ''3_add_index.sql'',
      Path = ''database/migrations/3_add_index.sql''\<rparr>"

definition readyWorld :: "bool list \<Rightarrow> world" where
  "readyWorld fl = (freshWorld fl)\<lparr>ledger := Some []\<rparr>"

definition migratedWorld :: world where
  "migratedWorld =
     \<lparr>ledger = Some [\<lparr>version = 1, applied_at = Some 1000\<rparr>,
                     \<lparr>version = 2, applied_at = Some 1000\<rparr>,
                     \<lparr>version = 3, applied_at = Some 1000\<rparr>],
      bodies = [''CREATE TABLE t'', ''ALTER TABLE t'', ''CREATE INDEX i''],
      accepts = sqlAccepts, now = 1000, faults = [],
      trace = [(CallEnsureTable, True),
               (CallCheck 1, True), (CallExec initMigration ''CREATE TABLE t'', True),
               (CallRecord 1, True),
               (CallCheck 2, True), (CallExec columnMigration ''ALTER TABLE t'', True),
               (CallRecord 2, True),
               (CallCheck 3, True), (CallExec indexMigration ''CREATE INDEX i'', True),
               (CallRecord 3, True)],
      logs = [MigrationsCompleted]\<rparr>"

text \<open>The world after the first of the three migrations alone has been applied.\<close>

definition initDoneWorld :: "bool list \<Rightarrow> world" where
  "initDoneWorld fl =
     \<lparr>ledger = Some [\<lparr>version = 1, applied_at = Some 1000\<rparr>],
      bodies = [''CREATE TABLE t''],
      accepts = sqlAccepts, now = 1000, faults = fl,
      trace = [(CallCheck 1, True), (CallExec initMigration ''CREATE TABLE t'', True),
               (CallRecord 1, True)],
      logs = []\<rparr>"

definition againMigration :: migrationFile where
  "againMigration =
     \<lparr>Version = 1, Name = ''01_again.sql'', Path = ''database/migrations/01_again.sql''\<rparr>"

text \<open>Two files that carry the same version, and a directory with nothing to discover.\<close>

definition twinFiles :: "fileInfo list" where
  "twinFiles =
     [\<lparr>fiName = ''1_init.sql'', IsDir = False\<rparr>,
      \<lparr>fiName = ''01_again.sql'', IsDir = False\<rparr>]"

definition twinFs :: fsys where
  "twinFs =
     \<lparr>ReadDir = (\<lambda>d. if d = migrationsDir then Some twinFiles else None),
      ReadFile = (\<lambda>p.
        if p = ''database/migrations/1_init.sql'' then Some ''CREATE TABLE t''
        else if p = ''database/migrations/01_again.sql'' then Some ''ALTER TABLE t''
        else None)\<rparr>"

definition idleFiles :: "fileInfo list" where
  "idleFiles =
     [\<lparr>fiName = ''README.md'', IsDir = False\<rparr>,
      \<lparr>fiName = ''old_1.sql'', IsDir = True\<rparr>,
      \<lparr>fiName = ''1.sql'', IsDir = False\<rparr>,
      \<lparr>fiName = ''v3_drop.sql'', IsDir = False\<rparr>]"

definition idleFs :: fsys where
  "idleFs =
     \<lparr>ReadDir = (\<lambda>d. if d = migrationsDir then Some idleFiles else None),
      ReadFile = (\<lambda>p. None)\<rparr>"

section \<open>Properties of discovery\<close>

lemma collect_fst:
  "fst (collectMigrations dir files) = List.map_filter (\<lambda>f. fst (toMigrationFile dir f)) files"
  by (induction files) (auto simp: List.map_filter_simps split: prod.splits option.splits)

lemma collect_snd:
  "snd (collectMigrations dir files) = concat (map (\<lambda>f. snd (toMigrationFile dir f)) files)"
  by (induction files) (auto split: prod.splits option.splits)

lemma SplitN2_length: "length (SplitN2 s sep) < 2 \<longleftrightarrow> sep \<notin> set s"
  by (simp add: SplitN2_def)

lemma toMigrationFile_Some:
  assumes "toMigrationFile dir f = (Some m, l)"
  shows "\<not> IsDir f \<and> HasSuffix (fiName f) ''.sql'' \<and> CHR ''_'' \<in> set (fiName f)
         \<and> Atoi (hd (SplitN2 (fiName f) (CHR ''_''))) = Some (Version m)
         \<and> Name m = fiName f \<and> Path m = Join dir (fiName f) \<and> l = []"
  using assms
  by (auto simp: toMigrationFile_def Let_def SplitN2_length split: if_splits option.splits)

lemma sortsByVersion_set: "sortsByVersion srt \<Longrightarrow> set (srt ms) = set ms"
  unfolding sortsByVersion_def by (metis set_mset_mset)

lemma sortsByVersion_sortSlice: "sortsByVersion sortSlice"
  unfolding sortsByVersion_def sortSlice_def
proof (intro allI conjI)
  fix ms :: "migrationFile list"
  show "mset (sort_key Version ms) = mset ms" by simp
  have "sorted (map Version (sort_key Version ms))" by (rule sorted_sort_key)
  then show "sorted_wrt (\<lambda>a b. \<not> Version b < Version a) (sort_key Version ms)"
    by (simp add: sorted_wrt_map not_less)
qed

lemma loadMigrationFiles_Inr:
  "ReadDir fs dir = Some files \<Longrightarrow>
   loadMigrationFiles srt fs dir =
     Inr (srt (fst (collectMigrations dir files)), snd (collectMigrations dir files))"
  by (simp add: loadMigrationFiles_def split: prod.splits)

lemma collected_from_entry:
  assumes "m \<in> set (fst (collectMigrations dir files))"
  shows "\<exists>f \<in> set files. toMigrationFile dir f = (Some m, [])"
proof -
  from assms obtain f where f: "f \<in> set files" "fst (toMigrationFile dir f) = Some m"
    by (auto simp: collect_fst List.map_filter_def)
  then have "toMigrationFile dir f = (Some m, snd (toMigrationFile dir f))"
    by (metis prod.collapse)
  with toMigrationFile_Some[of dir f m "snd (toMigrationFile dir f)"] f(1) show ?thesis
    by auto
qed

lemma diagnostics_collected:
  "f \<in> set files \<Longrightarrow> set (snd (toMigrationFile dir f)) \<subseteq> set (snd (collectMigrations dir files))"
  by (auto simp: collect_snd)

text \<open>
  C10. A regular file whose name ends in \<open>.sql\<close> and has no \<open>_\<close> at all (such as
  \<open>1.sql\<close>) is left out of discovery with the diagnostic
  "skip file without version prefix": no descriptor of the result bears its name, whatever
  stands before the suffix.
\<close>

theorem no_separator_excluded:
  assumes "\<not> IsDir f" and "HasSuffix (fiName f) ''.sql''" and "CHR ''_'' \<notin> set (fiName f)"
    and "sortsByVersion srt" and "ReadDir fs dir = Some files" and "f \<in> set files"
  shows "toMigrationFile dir f = (None, [SkipNoPrefix (fiName f)])
         \<and> (\<exists>ms ls. loadMigrationFiles srt fs dir = Inr (ms, ls)
               \<and> (\<forall>m \<in> set ms. Name m \<noteq> fiName f)
               \<and> SkipNoPrefix (fiName f) \<in> set ls)"
proof -
  let ?ms = "fst (collectMigrations dir files)" and ?ls = "snd (collectMigrations dir files)"
  have t: "toMigrationFile dir f = (None, [SkipNoPrefix (fiName f)])"
    using assms(1-3) by (simp add: toMigrationFile_def Let_def SplitN2_length)
  have names: "Name m \<noteq> fiName f" if "m \<in> set (srt ?ms)" for m
  proof -
    from that have "m \<in> set ?ms" using sortsByVersion_set[OF assms(4)] by simp
    then obtain g where "g \<in> set files" "toMigrationFile dir g = (Some m, [])"
      using collected_from_entry by blast
    then have "CHR ''_'' \<in> set (fiName g)" "Name m = fiName g"
      using toMigrationFile_Some by blast+
    then show ?thesis using assms(3) by auto
  qed
  have "SkipNoPrefix (fiName f) \<in> set ?ls"
    using diagnostics_collected[OF assms(6), of dir] t by simp
  with t names loadMigrationFiles_Inr[OF assms(5), of srt] show ?thesis by auto
qed

theorem no_separator_excluded_witness:
  "\<not> IsDir \<lparr>fiName = ''1.sql'', IsDir = False\<rparr>
   \<and> HasSuffix (fiName \<lparr>fiName = ''1.sql'', IsDir = False\<rparr>) ''.sql''
   \<and> CHR ''_'' \<notin> set (fiName \<lparr>fiName = ''1.sql'', IsDir = False\<rparr>)
   \<and> sortsByVersion sortSlice
   \<and> ReadDir sampleFs migrationsDir = Some sampleFiles
   \<and> \<lparr>fiName = ''1.sql'', IsDir = False\<rparr> \<in> set sampleFiles
   \<and> toMigrationFile migrationsDir \<lparr>fiName = ''1.sql'', IsDir = False\<rparr>
       = (None, [SkipNoPrefix ''1.sql''])
   \<and> (\<exists>ms ls. loadMigrationFiles sortSlice sampleFs migrationsDir = Inr (ms, ls)
         \<and> (\<forall>m \<in> set ms. Name m \<noteq> ''1.sql'') \<and> SkipNoPrefix ''1.sql'' \<in> set ls)"
proof -
  let ?f = "\<lparr>fiName = ''1.sql'', IsDir = False\<rparr>"
  have h1: "\<not> IsDir ?f" by simp
  have h2: "HasSuffix (fiName ?f) ''.sql''" by (simp add: HasSuffix_def)
  have h3: "CHR ''_'' \<notin> set (fiName ?f)" by simp
  have h5: "ReadDir sampleFs migrationsDir = Some sampleFiles" by (simp add: sampleFs_def)
  have h6: "?f \<in> set sampleFiles" by (simp add: sampleFiles_def)
  from no_separator_excluded[OF h1 h2 h3 sortsByVersion_sortSlice h5 h6]
    h1 h2 h3 h5 h6 sortsByVersion_sortSlice
  show ?thesis by simp
qed

lemma isDigit_not_sign: "isDigit c \<Longrightarrow> c \<noteq> CHR ''+'' \<and> c \<noteq> CHR ''-''"
  by (auto simp: isDigit_def)

lemma int_below_pow:
  fixes n :: nat
  shows "n \<le> 2 ^ k \<Longrightarrow> int n \<le> 2 ^ k" and "n < 2 ^ k \<Longrightarrow> int n < 2 ^ k"
  using of_nat_le_iff[of n "2 ^ k", where 'a = int] of_nat_less_iff[of n "2 ^ k", where 'a = int]
  by simp_all

lemma Atoi_Some:
  assumes "Atoi s = Some v"
  shows "decimalNumeral s \<and> - (2 ^ (intSize - 1)) \<le> v \<and> v < 2 ^ (intSize - 1)"
proof -
  from assms obtain c cs where s: "s = c # cs" by (cases s) (auto simp: Atoi_def)
  show ?thesis
  proof (cases "c = CHR ''+'' \<or> c = CHR ''-''")
    case True
    with assms s have d: "cs \<noteq> []" "list_all isDigit cs"
      and v: "(c = CHR ''-'' \<and> v = - int (digitsValue 0 cs) \<and> digitsValue 0 cs \<le> 2 ^ (intSize - 1))
              \<or> (c = CHR ''+'' \<and> v = int (digitsValue 0 cs) \<and> digitsValue 0 cs < 2 ^ (intSize - 1))"
      by (auto simp: Atoi_def Let_def split: if_splits)
    from v have "- (2 ^ (intSize - 1)) \<le> v \<and> v < 2 ^ (intSize - 1)"
      using int_below_pow[of "digitsValue 0 cs" "intSize - 1"]
      by (auto intro: order.strict_trans1[of _ 0] order.trans[of _ 0])
    with True d s show ?thesis by (simp add: decimalNumeral_def)
  next
    case False
    with assms s have d: "list_all isDigit s"
      and v: "v = int (digitsValue 0 s)" "digitsValue 0 s < 2 ^ (intSize - 1)"
      by (auto simp: Atoi_def Let_def split: if_splits)
    from v have "- (2 ^ (intSize - 1)) \<le> v \<and> v < 2 ^ (intSize - 1)"
      using int_below_pow[of "digitsValue 0 s" "intSize - 1"]
      by (auto intro: order.trans[of _ 0])
    with False d s show ?thesis by (simp add: decimalNumeral_def)
  qed
qed

lemma Atoi_digits:
  assumes "ds \<noteq> []" "list_all isDigit ds" "digitsValue 0 ds < 2 ^ (intSize - 1)"
  shows "Atoi ds = Some (int (digitsValue 0 ds))"
proof -
  from assms(1) obtain c cs where s: "ds = c # cs" by (cases ds) auto
  with assms(2) have "isDigit c" by simp
  then have "c \<noteq> CHR ''+''" "c \<noteq> CHR ''-''" using isDigit_not_sign by auto
  with assms s show ?thesis by (simp add: Atoi_def Let_def)
qed

lemma SplitN2_hd: "hd (SplitN2 s (CHR ''_'')) = versionPrefix s"
  by (auto simp: SplitN2_def versionPrefix_def intro!: sym[OF takeWhile_eq_all_conv[THEN iffD2]])



lemma toMigrationFile_cases:
  "toMigrationFile dir f =
     (if IsDir f \<or> \<not> HasSuffix (fiName f) ''.sql'' then (None, [])
      else if CHR ''_'' \<notin> set (fiName f) then (None, [SkipNoPrefix (fiName f)])
      else case Atoi (versionPrefix (fiName f)) of
             None \<Rightarrow> (None, [SkipInvalidPrefix (fiName f)])
           | Some v \<Rightarrow> (Some \<lparr>Version = v, Name = fiName f, Path = Join dir (fiName f)\<rparr>, []))"
  by (simp add: toMigrationFile_def Let_def SplitN2_length SplitN2_hd)

lemma name_not_loaded:
  assumes "sortsByVersion srt" and "fst (toMigrationFile dir f) = None" and "\<not> IsDir f"
    and "m \<in> set (srt (fst (collectMigrations dir files)))"
  shows "Name m \<noteq> fiName f"
proof
  assume eq: "Name m = fiName f"
  from assms(4) have "m \<in> set (fst (collectMigrations dir files))"
    using sortsByVersion_set[OF assms(1)] by simp
  then obtain g where g: "g \<in> set files" "toMigrationFile dir g = (Some m, [])"
    using collected_from_entry by blast
  then have "\<not> IsDir g" "Name m = fiName g" using toMigrationFile_Some by blast+
  with eq assms(3) have "g = f"
    by (intro fileInfo.equality) simp_all
  with g(2) assms(2) show False by simp
qed

text \<open>
  C5, amended. Every descriptor produced by discovery has the version that
  \<open>strconv.Atoi\<close> reads from the part of its file name before the first \<open>_\<close>: an
  optionally signed decimal numeral within the range of \<open>int\<close>, negative and zero
  included. A regular \<open>.sql\<close> file with a \<open>_\<close> whose prefix \<open>Atoi\<close> rejects is
  skipped with the diagnostic "skip file with invalid version prefix" and no descriptor
  of the result bears its name.
\<close>

theorem discovered_versions_signed:
  assumes "sortsByVersion srt" and "ReadDir fs dir = Some files"
  shows "\<exists>ms ls. loadMigrationFiles srt fs dir = Inr (ms, ls)
           \<and> (\<forall>m \<in> set ms. \<exists>f \<in> set files.
                 Name m = fiName f
                 \<and> Atoi (hd (SplitN2 (fiName f) (CHR ''_''))) = Some (Version m)
                 \<and> decimalNumeral (hd (SplitN2 (fiName f) (CHR ''_'')))
                 \<and> - (2 ^ (intSize - 1)) \<le> Version m \<and> Version m < 2 ^ (intSize - 1))
           \<and> (\<forall>f \<in> set files.
                 \<not> IsDir f \<and> HasSuffix (fiName f) ''.sql'' \<and> CHR ''_'' \<in> set (fiName f)
                 \<and> Atoi (hd (SplitN2 (fiName f) (CHR ''_''))) = None
                 \<longrightarrow> toMigrationFile dir f = (None, [SkipInvalidPrefix (fiName f)])
                     \<and> SkipInvalidPrefix (fiName f) \<in> set ls
                     \<and> (\<forall>m \<in> set ms. Name m \<noteq> fiName f))"
proof -
  let ?ms = "srt (fst (collectMigrations dir files))" and ?ls = "snd (collectMigrations dir files)"
  have a: "\<exists>f \<in> set files.
             Name m = fiName f
             \<and> Atoi (hd (SplitN2 (fiName f) (CHR ''_''))) = Some (Version m)
             \<and> decimalNumeral (hd (SplitN2 (fiName f) (CHR ''_'')))
             \<and> - (2 ^ (intSize - 1)) \<le> Version m \<and> Version m < 2 ^ (intSize - 1)"
    if "m \<in> set ?ms" for m
  proof -
    from that have "m \<in> set (fst (collectMigrations dir files))"
      using sortsByVersion_set[OF assms(1)] by simp
    then obtain g where g: "g \<in> set files" "toMigrationFile dir g = (Some m, [])"
      using collected_from_entry by blast
    from toMigrationFile_Some[OF g(2)]
    have n: "Name m = fiName g" and v: "Atoi (hd (SplitN2 (fiName g) (CHR ''_''))) = Some (Version m)"
      by simp_all
    from Atoi_Some[OF v] n v g(1) show ?thesis by blast
  qed
  have b: "toMigrationFile dir f = (None, [SkipInvalidPrefix (fiName f)])
           \<and> SkipInvalidPrefix (fiName f) \<in> set ?ls
           \<and> (\<forall>m \<in> set ?ms. Name m \<noteq> fiName f)"
    if "f \<in> set files" and "\<not> IsDir f" and "HasSuffix (fiName f) ''.sql''"
      and "CHR ''_'' \<in> set (fiName f)" and "Atoi (hd (SplitN2 (fiName f) (CHR ''_''))) = None" for f
  proof -
    have t: "toMigrationFile dir f = (None, [SkipInvalidPrefix (fiName f)])"
      using that(2-5) by (simp add: toMigrationFile_cases SplitN2_hd)
    have "SkipInvalidPrefix (fiName f) \<in> set ?ls"
      using diagnostics_collected[OF that(1), of dir] t by simp
    moreover have "Name m \<noteq> fiName f" if "m \<in> set ?ms" for m
      using name_not_loaded[OF assms(1) _ \<open>\<not> IsDir f\<close> that] t by simp
    ultimately show ?thesis using t by simp
  qed
  from a b loadMigrationFiles_Inr[OF assms(2), of srt] show ?thesis by blast
qed



lemma sample_loaded:
  "loadMigrationFiles sortSlice sampleFs migrationsDir =
     Inr ([\<lparr>Version = 1, Name = ''001_create_users.sql'',
             Path = ''database/migrations/001_create_users.sql''\<rparr>,
           \<lparr>Version = 2, Name = ''002_add_email_index.sql'',
             Path = ''database/migrations/002_add_email_index.sql''\<rparr>],
          [SkipNoPrefix ''1.sql'', SkipInvalidPrefix ''v3_drop.sql''])"
  by (simp add: loadMigrationFiles_def sampleFs_def sampleFiles_def toMigrationFile_def
      HasSuffix_def SplitN2_def Atoi_def isDigit_def intSize_def Join_def migrationsDir_def
      sortSlice_def)

text \<open>
  C5, as stated, fails. The claim gives every discovered descriptor a non-negative
  version; \<open>strconv.Atoi\<close> accepts a sign, so the file \<open>-5_rollback.sql\<close> is discovered
  with version \<open>-5\<close>.
\<close>

theorem negative_version_counterexample:
  "loadMigrationFiles sortSlice signedFs migrationsDir =
     Inr ([\<lparr>Version = - 5, Name = ''-5_rollback.sql'',
             Path = ''database/migrations/-5_rollback.sql''\<rparr>], [])
   \<and> Version \<lparr>Version = - 5, Name = ''-5_rollback.sql'',
                Path = ''database/migrations/-5_rollback.sql''\<rparr> < 0"
  by (simp add: loadMigrationFiles_def signedFs_def toMigrationFile_def
      HasSuffix_def SplitN2_def Atoi_def isDigit_def intSize_def Join_def migrationsDir_def
      sortSlice_def)

theorem discovered_versions_signed_witness:
  "sortsByVersion sortSlice \<and> ReadDir signedFs migrationsDir
       = Some [\<lparr>fiName = ''-5_rollback.sql'', IsDir = False\<rparr>]
   \<and> (\<exists>ms ls. loadMigrationFiles sortSlice signedFs migrationsDir = Inr (ms, ls)
         \<and> (\<forall>m \<in> set ms. \<exists>f \<in> set [\<lparr>fiName = ''-5_rollback.sql'', IsDir = False\<rparr>].
               Name m = fiName f
               \<and> Atoi (hd (SplitN2 (fiName f) (CHR ''_''))) = Some (Version m)
               \<and> decimalNumeral (hd (SplitN2 (fiName f) (CHR ''_'')))
               \<and> - (2 ^ (intSize - 1)) \<le> Version m \<and> Version m < 2 ^ (intSize - 1)))
   \<and> ReadDir sampleFs migrationsDir = Some sampleFiles
   \<and> \<lparr>fiName = ''v3_drop.sql'', IsDir = False\<rparr> \<in> set sampleFiles
   \<and> HasSuffix ''v3_drop.sql'' ''.sql'' \<and> CHR ''_'' \<in> set ''v3_drop.sql''
   \<and> Atoi (hd (SplitN2 ''v3_drop.sql'' (CHR ''_''))) = None
   \<and> (\<exists>ms ls. loadMigrationFiles sortSlice sampleFs migrationsDir = Inr (ms, ls)
         \<and> SkipInvalidPrefix ''v3_drop.sql'' \<in> set ls
         \<and> (\<forall>m \<in> set ms. Name m \<noteq> ''v3_drop.sql''))"
proof -
  let ?f = "\<lparr>fiName = ''v3_drop.sql'', IsDir = False\<rparr>"
  have h1: "ReadDir signedFs migrationsDir = Some [\<lparr>fiName = ''-5_rollback.sql'', IsDir = False\<rparr>]"
    by (simp add: signedFs_def)
  have h2: "ReadDir sampleFs migrationsDir = Some sampleFiles" by (simp add: sampleFs_def)
  have h3: "?f \<in> set sampleFiles" by (simp add: sampleFiles_def)
  have h4: "HasSuffix ''v3_drop.sql'' ''.sql''" by (simp add: HasSuffix_def)
  have h5: "Atoi (hd (SplitN2 ''v3_drop.sql'' (CHR ''_''))) = None"
    by (simp add: SplitN2_def Atoi_def isDigit_def)
  from discovered_versions_signed[OF sortsByVersion_sortSlice h1]
  have a: "\<exists>ms ls. loadMigrationFiles sortSlice signedFs migrationsDir = Inr (ms, ls)
         \<and> (\<forall>m \<in> set ms. \<exists>f \<in> set [\<lparr>fiName = ''-5_rollback.sql'', IsDir = False\<rparr>].
               Name m = fiName f
               \<and> Atoi (hd (SplitN2 (fiName f) (CHR ''_''))) = Some (Version m)
               \<and> decimalNumeral (hd (SplitN2 (fiName f) (CHR ''_'')))
               \<and> - (2 ^ (intSize - 1)) \<le> Version m \<and> Version m < 2 ^ (intSize - 1))"
    by blast
  from discovered_versions_signed[OF sortsByVersion_sortSlice h2] h3 h4 h5
  have b: "\<exists>ms ls. loadMigrationFiles sortSlice sampleFs migrationsDir = Inr (ms, ls)
         \<and> SkipInvalidPrefix ''v3_drop.sql'' \<in> set ls
         \<and> (\<forall>m \<in> set ms. Name m \<noteq> ''v3_drop.sql'')"
    by fastforce
  from a b h1 h2 h3 h4 h5 sortsByVersion_sortSlice show ?thesis by simp
qed


lemma wellFormed_accepted:
  assumes "\<not> IsDir f" and "wellFormedName (fiName f)"
  shows "toMigrationFile dir f =
           (Some \<lparr>Version = nameVersion (fiName f), Name = fiName f,
                   Path = Join dir (fiName f)\<rparr>, [])"
  using assms Atoi_digits[of "versionPrefix (fiName f)"]
  by (simp add: toMigrationFile_cases wellFormedName_def nameVersion_def)

lemma collect_wellFormed:
  assumes "\<forall>f \<in> set files. \<not> IsDir f \<and> wellFormedName (fiName f)"
  shows "collectMigrations dir files =
           (map (\<lambda>f. \<lparr>Version = nameVersion (fiName f), Name = fiName f,
                        Path = Join dir (fiName f)\<rparr>) files, [])"
  using assms by (induction files) (simp_all add: wellFormed_accepted)

lemma strictly_ascending:
  assumes "sorted_wrt (\<lambda>a b. \<not> Version b < Version a) ms" and "distinct (map Version ms)"
  shows "sorted_wrt (<) (map Version ms)"
proof -
  have "sorted_wrt (\<lambda>a b. Version a < Version b) ms"
    using assms
  proof (induction ms)
    case Nil
    then show ?case by simp
  next
    case (Cons a ms)
    have "Version a < Version x" if "x \<in> set ms" for x
    proof -
      from Cons.prems that have "\<not> Version x < Version a" "Version a \<noteq> Version x" by auto
      then show ?thesis by simp
    qed
    with Cons show ?case by simp
  qed
  then show ?thesis by (simp add: sorted_wrt_map)
qed

lemma strictly_ascending_unique:
  assumes "sorted_wrt (<) (map Version xs)" and "sorted_wrt (<) (map Version ys)"
    and "mset xs = mset ys"
  shows "xs = ys"
proof -
  from assms(3) have st: "set xs = set ys" by (rule mset_eq_setD)
  then have "set (map Version ys) = set (map Version xs)" by simp
  from strict_sorted_equal[OF assms(1,2) this] have m: "map Version xs = map Version ys" by simp
  from assms(1) have "distinct (map Version xs)" using strict_sorted_iff by blast
  then have "inj_on Version (set xs)" by (simp add: distinct_map)
  with st have "inj_on Version (set xs \<union> set ys)" by simp
  from map_inj_on[OF m this] show ?thesis .
qed

text \<open>
  C4. For a directory of regular files with well-formed names and pairwise distinct
  versions, discovery returns one descriptor per file, with the version its name carries,
  in strictly ascending order of version and with no diagnostic; and the result is the
  same for every listing order of the same entries and every sort that meets the
  contract of \<open>sort.Slice\<close>.
\<close>

theorem discovery_sorted_strictly:
  assumes "sortsByVersion srt" and "ReadDir fs dir = Some files"
    and "\<forall>f \<in> set files. \<not> IsDir f \<and> wellFormedName (fiName f)"
    and "distinct (map (\<lambda>f. nameVersion (fiName f)) files)"
  shows "\<exists>ms. loadMigrationFiles srt fs dir = Inr (ms, [])
           \<and> sorted_wrt (<) (map Version ms)
           \<and> mset (map Name ms) = mset (map fiName files)
           \<and> (\<forall>m \<in> set ms. Version m = nameVersion (Name m))
           \<and> (\<forall>srt' fs' files'.
                 sortsByVersion srt' \<and> ReadDir fs' dir = Some files' \<and> mset files' = mset files
                 \<longrightarrow> loadMigrationFiles srt' fs' dir = Inr (ms, []))"
proof -
  let ?mk = "\<lambda>f. \<lparr>Version = nameVersion (fiName f), Name = fiName f, Path = Join dir (fiName f)\<rparr>"
  let ?ms = "srt (map ?mk files)"
  have perm: "mset ?ms = mset (map ?mk files)"
    using assms(1) by (simp add: sortsByVersion_def)
  have l: "loadMigrationFiles srt fs dir = Inr (?ms, [])"
    using loadMigrationFiles_Inr[OF assms(2), of srt] collect_wellFormed[OF assms(3), of dir] by simp
  have "mset (map Version ?ms) = mset (map (\<lambda>f. nameVersion (fiName f)) files)"
    using arg_cong[OF perm, of "image_mset Version"] by (simp add: comp_def multiset.map_comp)
  then have d: "distinct (map Version ?ms)"
    using assms(4) mset_eq_imp_distinct_iff by blast
  have "sorted_wrt (\<lambda>a b. \<not> Version b < Version a) ?ms"
    using assms(1) by (simp add: sortsByVersion_def)
  from strictly_ascending[OF this d] have s: "sorted_wrt (<) (map Version ?ms)" .
  have n: "mset (map Name ?ms) = mset (map fiName files)"
    using arg_cong[OF perm, of "image_mset Name"] by (simp add: comp_def multiset.map_comp)
  have v: "Version m = nameVersion (Name m)" if "m \<in> set ?ms" for m
  proof -
    from that have "m \<in> set (map ?mk files)" using mset_eq_setD[OF perm] by simp
    then show ?thesis by auto
  qed
  have o: "loadMigrationFiles srt' fs' dir = Inr (?ms, [])"
    if a: "sortsByVersion srt'" and b: "ReadDir fs' dir = Some files'" and c: "mset files' = mset files"
    for srt' fs' files'
  proof -
    let ?ms' = "srt' (map ?mk files')"
    from c have st: "set files' = set files" by (rule mset_eq_setD)
    have perm': "mset ?ms' = mset (map ?mk files')"
      using a by (simp add: sortsByVersion_def)
    have l': "loadMigrationFiles srt' fs' dir = Inr (?ms', [])"
      using loadMigrationFiles_Inr[OF b, of srt'] collect_wellFormed[of files' dir] assms(3) st
      by simp
    have same: "mset ?ms' = mset ?ms" using perm perm' c by simp
    then have "mset (map Version ?ms') = mset (map Version ?ms)"
      using arg_cong[of "mset ?ms'" "mset ?ms" "image_mset Version"] by simp
    then have d': "distinct (map Version ?ms')" using d mset_eq_imp_distinct_iff by blast
    have "sorted_wrt (\<lambda>a b. \<not> Version b < Version a) ?ms'"
      using a by (simp add: sortsByVersion_def)
    from strictly_ascending[OF this d'] have s': "sorted_wrt (<) (map Version ?ms')" .
    from strictly_ascending_unique[OF s' s same] l' show ?thesis by simp
  qed
  show ?thesis
  proof (intro exI[of _ ?ms] conjI)
    show "loadMigrationFiles srt fs dir = Inr (?ms, [])" by (rule l)
    show "sorted_wrt (<) (map Version ?ms)" by (rule s)
    show "mset (map Name ?ms) = mset (map fiName files)" by (rule n)
    show "\<forall>m \<in> set ?ms. Version m = nameVersion (Name m)" using v by blast
    show "\<forall>srt' fs' files'.
            sortsByVersion srt' \<and> ReadDir fs' dir = Some files' \<and> mset files' = mset files
            \<longrightarrow> loadMigrationFiles srt' fs' dir = Inr (?ms, [])"
      using o by blast
  qed
qed


theorem discovery_sorted_strictly_witness:
  "sortsByVersion sortSlice \<and> ReadDir (threeFs threeFiles) migrationsDir = Some threeFiles
   \<and> map fiName threeFiles = [''3_add_index.sql'', ''1_init.sql'', ''2_add_column.sql'']
   \<and> map IsDir threeFiles = [False, False, False]
   \<and> wellFormedName ''3_add_index.sql'' \<and> wellFormedName ''1_init.sql''
   \<and> wellFormedName ''2_add_column.sql''
   \<and> distinct (map (\<lambda>f. nameVersion (fiName f)) threeFiles)
   \<and> ReadDir (threeFs (rev threeFiles)) migrationsDir = Some (rev threeFiles)
   \<and> mset (rev threeFiles) = mset threeFiles
   \<and> (\<exists>ms. loadMigrationFiles sortSlice (threeFs threeFiles) migrationsDir = Inr (ms, [])
         \<and> sorted_wrt (<) (map Version ms)
         \<and> mset (map Name ms) = mset (map fiName threeFiles)
         \<and> (\<forall>m \<in> set ms. Version m = nameVersion (Name m))
         \<and> loadMigrationFiles sortSlice (threeFs (rev threeFiles)) migrationsDir = Inr (ms, []))"
proof -
  have h2: "ReadDir (threeFs threeFiles) migrationsDir = Some threeFiles"
    and h2': "ReadDir (threeFs (rev threeFiles)) migrationsDir = Some (rev threeFiles)"
    by (simp_all add: threeFs_def)
  have h3: "\<forall>f \<in> set threeFiles. \<not> IsDir f \<and> wellFormedName (fiName f)"
    by (simp add: threeFiles_def wellFormedName_def versionPrefix_def HasSuffix_def
        isDigit_def intSize_def)
  have h4: "distinct (map (\<lambda>f. nameVersion (fiName f)) threeFiles)"
    by (simp add: threeFiles_def nameVersion_def versionPrefix_def)
  have h5: "mset (rev threeFiles) = mset threeFiles" by simp
  from discovery_sorted_strictly[OF sortsByVersion_sortSlice h2 h3 h4]
  obtain ms where "loadMigrationFiles sortSlice (threeFs threeFiles) migrationsDir = Inr (ms, [])"
    "sorted_wrt (<) (map Version ms)" "mset (map Name ms) = mset (map fiName threeFiles)"
    "\<forall>m \<in> set ms. Version m = nameVersion (Name m)"
    "\<forall>srt' fs' files'.
        sortsByVersion srt' \<and> ReadDir fs' migrationsDir = Some files' \<and> mset files' = mset threeFiles
        \<longrightarrow> loadMigrationFiles srt' fs' migrationsDir = Inr (ms, [])"
    by blast
  moreover have "map fiName threeFiles = [''3_add_index.sql'', ''1_init.sql'', ''2_add_column.sql'']"
    and "map IsDir threeFiles = [False, False, False]"
    by (simp_all add: threeFiles_def)
  moreover have "wellFormedName ''3_add_index.sql''" "wellFormedName ''1_init.sql''"
    "wellFormedName ''2_add_column.sql''"
    using h3 by (simp_all add: threeFiles_def)
  ultimately show ?thesis using sortsByVersion_sortSlice h2 h2' h4 h5 by blast
qed

lemma three_loaded:
  "loadMigrationFiles sortSlice (threeFs threeFiles) migrationsDir =
     Inr ([\<lparr>Version = 1, Name = ''1_init.sql'', Path = ''database/migrations/1_init.sql''\<rparr>,
           \<lparr>Version = 2, Name = ''2_add_column.sql'',
             Path = ''database/migrations/2_add_column.sql''\<rparr>,
           \<lparr>Version = 3, Name = ''3_add_index.sql'',
             Path = ''database/migrations/3_add_index.sql''\<rparr>], [])"
  by (simp add: loadMigrationFiles_def threeFs_def threeFiles_def toMigrationFile_def
      HasSuffix_def SplitN2_def Atoi_def isDigit_def intSize_def Join_def migrationsDir_def
      sortSlice_def)

section \<open>Properties of the applier\<close>

text \<open>
  What one call of each function does to the world, as case rules; then facts about a whole
  run of the loop, each by induction on the list of descriptors.
\<close>

lemma check_cases:
  assumes "migrationAlreadyApplied v w = (r, w1)"
  obtains (failed) "r = Inl (FailedCheck v)"
      "(faults w \<noteq> [] \<and> hd (faults w)) \<or> ledger w = None"
      "w1 = w\<lparr>faults := tl (faults w), trace := trace w @ [(CallCheck v, False)]\<rparr>"
  | (answered) "r = Inr (v \<in> set (recorded w))" "ledger w \<noteq> None"
      "\<not> (faults w \<noteq> [] \<and> hd (faults w))"
      "w1 = w\<lparr>faults := tl (faults w), trace := trace w @ [(CallCheck v, True)]\<rparr>"
  using assms
  by (auto simp: migrationAlreadyApplied_def queryExists_def nextFault_def traced_def recorded_def
      split: if_splits option.splits)

lemma check_answers:
  assumes "ledger w \<noteq> None" and "\<not> (faults w \<noteq> [] \<and> hd (faults w))"
  shows "migrationAlreadyApplied v w =
           (Inr (v \<in> set (recorded w)),
            w\<lparr>faults := tl (faults w), trace := trace w @ [(CallCheck v, True)]\<rparr>)"
  using assms
  by (auto simp: migrationAlreadyApplied_def queryExists_def nextFault_def traced_def recorded_def
      split: if_splits option.splits)

lemma apply_cases:
  assumes "applyMigration fs m w = (r, w2)"
  obtains (unread) "ReadFile fs (Path m) = None" "r = Some (FailedReadFile (Path m))" "w2 = w"
  | (unexecuted) c where "ReadFile fs (Path m) = Some c" "r = Some (FailedExecute (Name m))"
      "(faults w \<noteq> [] \<and> hd (faults w)) \<or> \<not> accepts w (bodies w) c"
      "w2 = w\<lparr>faults := tl (faults w), trace := trace w @ [(CallExec m c, False)]\<rparr>"
  | (unrecorded) c where "ReadFile fs (Path m) = Some c" "r = Some (FailedRecord (Version m))"
      "accepts w (bodies w) c" "\<not> (faults w \<noteq> [] \<and> hd (faults w))"
      "(tl (faults w) \<noteq> [] \<and> hd (tl (faults w))) \<or> ledger w = None
       \<or> Version m \<in> set (recorded w)"
      "w2 = w\<lparr>bodies := bodies w @ [c], faults := tl (tl (faults w)),
               trace := trace w @ [(CallExec m c, True), (CallRecord (Version m), False)]\<rparr>"
  | (applied) c rows where "ReadFile fs (Path m) = Some c" "r = None"
      "accepts w (bodies w) c" "ledger w = Some rows" "Version m \<notin> set (map version rows)"
      "\<not> (faults w \<noteq> [] \<and> hd (faults w))" "\<not> (tl (faults w) \<noteq> [] \<and> hd (tl (faults w)))"
      "w2 = w\<lparr>ledger := Some (rows @ [\<lparr>version = Version m, applied_at = Some (now w)\<rparr>]),
               bodies := bodies w @ [c], faults := tl (tl (faults w)),
               trace := trace w @ [(CallExec m c, True), (CallRecord (Version m), True)]\<rparr>"
  using assms
  by (auto simp: applyMigration_def execBody_def execInsert_def nextFault_def traced_def
      recorded_def split: if_splits option.splits)


lemma run_Cons_cases:
  assumes "applyPendingMigrations fs (m # ms) w = (r, w')"
  obtains (check_failed) "r = Some (FailedCheck (Version m))"
      "(faults w \<noteq> [] \<and> hd (faults w)) \<or> ledger w = None"
      "w' = w\<lparr>faults := tl (faults w), trace := trace w @ [(CallCheck (Version m), False)]\<rparr>"
  | (skipped) "Version m \<in> set (recorded w)" "ledger w \<noteq> None"
      "\<not> (faults w \<noteq> [] \<and> hd (faults w))"
      "applyPendingMigrations fs ms
         (w\<lparr>faults := tl (faults w), trace := trace w @ [(CallCheck (Version m), True)],
            logs := logs w @ [AlreadyApplied (Version m) (Name m)]\<rparr>) = (r, w')"
  | (unread) "Version m \<notin> set (recorded w)" "ReadFile fs (Path m) = None"
      "r = Some (FailedReadFile (Path m))"
      "w' = w\<lparr>faults := tl (faults w), trace := trace w @ [(CallCheck (Version m), True)]\<rparr>"
  | (unexecuted) c where "Version m \<notin> set (recorded w)" "ReadFile fs (Path m) = Some c"
      "r = Some (FailedExecute (Name m))"
      "(tl (faults w) \<noteq> [] \<and> hd (tl (faults w))) \<or> \<not> accepts w (bodies w) c"
      "w' = w\<lparr>faults := tl (tl (faults w)),
               trace := trace w @ [(CallCheck (Version m), True), (CallExec m c, False)]\<rparr>"
  | (unrecorded) c where "Version m \<notin> set (recorded w)" "ReadFile fs (Path m) = Some c"
      "r = Some (FailedRecord (Version m))" "accepts w (bodies w) c"
      "\<not> (tl (faults w) \<noteq> [] \<and> hd (tl (faults w)))"
      "w' = w\<lparr>bodies := bodies w @ [c], faults := tl (tl (tl (faults w))),
               trace := trace w @ [(CallCheck (Version m), True), (CallExec m c, True),
                                   (CallRecord (Version m), False)]\<rparr>"
  | (applied) c rows where "Version m \<notin> set (recorded w)" "ReadFile fs (Path m) = Some c"
      "accepts w (bodies w) c" "ledger w = Some rows"
      "applyPendingMigrations fs ms
         (w\<lparr>ledger := Some (rows @ [\<lparr>version = Version m, applied_at = Some (now w)\<rparr>]),
            bodies := bodies w @ [c], faults := tl (tl (tl (faults w))),
            trace := trace w @ [(CallCheck (Version m), True), (CallExec m c, True),
                                (CallRecord (Version m), True)]\<rparr>) = (r, w')"
proof -
  obtain q w1 where q: "migrationAlreadyApplied (Version m) w = (q, w1)" by fastforce
  from q show ?thesis
  proof (cases rule: check_cases)
    case failed
    with assms q check_failed show ?thesis by simp
  next
    case answered
    show ?thesis
    proof (cases "Version m \<in> set (recorded w)")
      case True
      with assms q answered have "applyPendingMigrations fs ms
         (w\<lparr>faults := tl (faults w), trace := trace w @ [(CallCheck (Version m), True)],
            logs := logs w @ [AlreadyApplied (Version m) (Name m)]\<rparr>) = (r, w')"
        by simp
      with True answered skipped show ?thesis by blast
    next
      case False
      obtain a w2 where a: "applyMigration fs m w1 = (a, w2)" by fastforce
      from a show ?thesis
      proof (cases rule: apply_cases)
        case unread
        with assms q a answered False have "r = Some (FailedReadFile (Path m))" "w' = w1" by simp_all
        with unread(1) answered False show ?thesis using that(3) by simp
      next
        case (unexecuted c)
        with assms q a answered False have "r = Some (FailedExecute (Name m))" "w' = w2" by simp_all
        with unexecuted answered False show ?thesis using that(4)[of c] by simp
      next
        case (unrecorded c)
        with assms q a answered False have "r = Some (FailedRecord (Version m))" "w' = w2" by simp_all
        with unrecorded answered False show ?thesis using that(5)[of c] by simp
      next
        case (applied c rows)
        with assms q a answered False have "applyPendingMigrations fs ms w2 = (r, w')" by simp
        with applied answered False show ?thesis using that(6)[of c rows] by simp
      qed
    qed
  qed
qed


lemma run_append:
  "applyPendingMigrations fs (xs @ ys) w =
     (case applyPendingMigrations fs xs w of
        (Some e, w1) \<Rightarrow> (Some e, w1)
      | (None, w1) \<Rightarrow> applyPendingMigrations fs ys w1)"
  by (induction xs arbitrary: w) (auto split: prod.splits sum.splits bool.splits option.splits)

lemma since_append: "trace w' = trace w @ new \<Longrightarrow> since w w' = new"
  by (simp add: since_def)

lemma run_frame:
  assumes "applyPendingMigrations fs ms w = (r, w')"
  shows "accepts w' = accepts w \<and> now w' = now w
         \<and> (\<exists>new. trace w' = trace w @ new) \<and> (\<exists>nb. bodies w' = bodies w @ nb)
         \<and> (ledger w = None \<longrightarrow> ledger w' = None)
         \<and> (\<forall>rows. ledger w = Some rows \<longrightarrow> (\<exists>add. ledger w' = Some (rows @ add)))"
  using assms
proof (induction ms arbitrary: w)
  case Nil
  then show ?case by simp
next
  case (Cons m ms)
  from Cons.prems show ?case
  proof (cases rule: run_Cons_cases)
    case (skipped)
    from Cons.IH[OF skipped(4)] show ?thesis by auto
  next
    case (applied c rows)
    from Cons.IH[OF applied(5)] applied(4) show ?thesis by auto
  qed simp_all
qed

lemma run_since:
  assumes "applyPendingMigrations fs ms w1 = (r, w')" and "trace w1 = trace w @ xs"
  shows "since w w' = xs @ since w1 w'"
proof -
  from run_frame[OF assms(1)] obtain new where n: "trace w' = trace w1 @ new" by blast
  with assms(2) have "trace w' = trace w @ (xs @ new)" by simp
  from since_append[OF this] since_append[OF n] show ?thesis by simp
qed


lemma run_rows:
  assumes "applyPendingMigrations fs ms w = (r, w')" and "ledger w = Some rows"
    and "ledger w' = Some (rows @ add)"
  shows "distinct (map version add) \<and> set (map version add) \<inter> set (map version rows) = {}
         \<and> (\<forall>row \<in> set add.
               applied_at row = Some (now w)
               \<and> (\<exists>m \<in> set ms. \<exists>c.
                     Version m = version row \<and> ReadFile fs (Path m) = Some c
                     \<and> (CallExec m c, True) \<in> set (since w w')
                     \<and> (CallRecord (version row), True) \<in> set (since w w')))"
  using assms
proof (induction ms arbitrary: w rows add)
  case Nil
  then show ?case by simp
next
  case (Cons m ms)
  from Cons.prems(1) show ?case
  proof (cases rule: run_Cons_cases)
    case check_failed
    with Cons.prems show ?thesis by simp
  next
    case skipped
    let ?w1 = "w\<lparr>faults := tl (faults w), trace := trace w @ [(CallCheck (Version m), True)],
                 logs := logs w @ [AlreadyApplied (Version m) (Name m)]\<rparr>"
    have s: "since w w' = [(CallCheck (Version m), True)] @ since ?w1 w'"
      by (rule run_since[OF skipped(4)]) simp
    from Cons.IH[OF skipped(4), of rows add] Cons.prems(2,3)
    show ?thesis unfolding s by simp
  next
    case unread
    with Cons.prems show ?thesis by simp
  next
    case (unexecuted c)
    with Cons.prems show ?thesis by simp
  next
    case (unrecorded c)
    with Cons.prems show ?thesis by simp
  next
    case (applied c rows0)
    let ?row = "\<lparr>version = Version m, applied_at = Some (now w)\<rparr>"
    let ?w2 = "w\<lparr>ledger := Some (rows0 @ [?row]),
            bodies := bodies w @ [c], faults := tl (tl (tl (faults w))),
            trace := trace w @ [(CallCheck (Version m), True), (CallExec m c, True),
                                (CallRecord (Version m), True)]\<rparr>"
    from applied(4) Cons.prems(2) have r0: "rows0 = rows" by simp
    have s: "since w w' = [(CallCheck (Version m), True), (CallExec m c, True),
                           (CallRecord (Version m), True)] @ since ?w2 w'"
      by (rule run_since[OF applied(5)]) simp
    from run_frame[OF applied(5)] obtain add2 where a2: "ledger w' = Some ((rows @ [?row]) @ add2)"
      using r0 by auto
    with Cons.prems(3) have add: "add = ?row # add2" by simp
    have l2: "ledger ?w2 = Some (rows @ [?row])" using r0 by simp
    from Cons.IH[OF applied(5) l2 a2]
    have d: "distinct (map version add2)"
      and j: "set (map version add2) \<inter> set (map version (rows @ [?row])) = {}"
      and e: "\<forall>row \<in> set add2.
               applied_at row = Some (now w)
               \<and> (\<exists>m' \<in> set ms. \<exists>c'.
                     Version m' = version row \<and> ReadFile fs (Path m') = Some c'
                     \<and> (CallExec m' c', True) \<in> set (since ?w2 w')
                     \<and> (CallRecord (version row), True) \<in> set (since ?w2 w'))"
      by simp_all
    from applied(1) r0 Cons.prems(2) have nv: "Version m \<notin> set (map version rows)"
      by (simp add: recorded_def)
    have 1: "distinct (map version add)" using d j add by auto
    have 2: "set (map version add) \<inter> set (map version rows) = {}" using j nv add by auto
    have 3: "applied_at row = Some (now w)
             \<and> (\<exists>m' \<in> set (m # ms). \<exists>c'.
                   Version m' = version row \<and> ReadFile fs (Path m') = Some c'
                   \<and> (CallExec m' c', True) \<in> set (since w w')
                   \<and> (CallRecord (version row), True) \<in> set (since w w'))"
      if "row \<in> set add" for row
    proof (cases "row = ?row")
      case True
      then show ?thesis using applied(2) unfolding s by auto
    next
      case False
      with that add have "row \<in> set add2" by simp
      with e show ?thesis unfolding s by fastforce
    qed
    from 1 2 3 show ?thesis by blast
  qed
qed


lemma run_counts:
  assumes "applyPendingMigrations fs ms w = (r, w')"
  shows "length (filter (\<lambda>e. isExecFor v (fst e)) (since w w'))
           \<le> (if v \<in> set (recorded w) then 0 else 1)
         \<and> length (filter (\<lambda>e. fst e = CallRecord v) (since w w'))
           \<le> (if v \<in> set (recorded w) then 0 else 1)"
  using assms
proof (induction ms arbitrary: w)
  case Nil
  then show ?case by (simp add: since_def)
next
  case (Cons m ms)
  from Cons.prems(1) show ?case
  proof (cases rule: run_Cons_cases)
    case skipped
    let ?w1 = "w\<lparr>faults := tl (faults w), trace := trace w @ [(CallCheck (Version m), True)],
                 logs := logs w @ [AlreadyApplied (Version m) (Name m)]\<rparr>"
    have s: "since w w' = [(CallCheck (Version m), True)] @ since ?w1 w'"
      by (rule run_since[OF skipped(4)]) simp
    have "recorded ?w1 = recorded w" by (simp add: recorded_def)
    with Cons.IH[OF skipped(4)] show ?thesis unfolding s by simp
  next
    case (applied c rows)
    let ?row = "\<lparr>version = Version m, applied_at = Some (now w)\<rparr>"
    let ?w2 = "w\<lparr>ledger := Some (rows @ [?row]),
            bodies := bodies w @ [c], faults := tl (tl (tl (faults w))),
            trace := trace w @ [(CallCheck (Version m), True), (CallExec m c, True),
                                (CallRecord (Version m), True)]\<rparr>"
    have s: "since w w' = [(CallCheck (Version m), True), (CallExec m c, True),
                           (CallRecord (Version m), True)] @ since ?w2 w'"
      by (rule run_since[OF applied(5)]) simp
    have rec: "recorded ?w2 = recorded w @ [Version m]"
      using applied(4) by (simp add: recorded_def)
    from Cons.IH[OF applied(5)] applied(1) show ?thesis unfolding s rec by auto
  qed (auto simp: since_def)
qed

lemma run_success_recorded:
  assumes "applyPendingMigrations fs ms w = (None, w')"
  shows "Version ` set ms \<subseteq> set (recorded w') \<and> set (recorded w) \<subseteq> set (recorded w')"
  using assms
proof (induction ms arbitrary: w)
  case Nil
  then show ?case by simp
next
  case (Cons m ms)
  from Cons.prems(1) show ?case
  proof (cases rule: run_Cons_cases)
    case skipped
    let ?w1 = "w\<lparr>faults := tl (faults w), trace := trace w @ [(CallCheck (Version m), True)],
                 logs := logs w @ [AlreadyApplied (Version m) (Name m)]\<rparr>"
    have "recorded ?w1 = recorded w" by (simp add: recorded_def)
    with Cons.IH[OF skipped(4)] skipped(1) show ?thesis by auto
  next
    case (applied c rows)
    let ?row = "\<lparr>version = Version m, applied_at = Some (now w)\<rparr>"
    let ?w2 = "w\<lparr>ledger := Some (rows @ [?row]),
            bodies := bodies w @ [c], faults := tl (tl (tl (faults w))),
            trace := trace w @ [(CallCheck (Version m), True), (CallExec m c, True),
                                (CallRecord (Version m), True)]\<rparr>"
    have rec: "recorded ?w2 = recorded w @ [Version m]"
      using applied(4) by (simp add: recorded_def)
    from Cons.IH[OF applied(5)] show ?thesis unfolding rec by auto
  qed simp_all
qed

lemma run_all_applied:
  assumes "applyPendingMigrations fs ms w = (r, w')" and "Version ` set ms \<subseteq> set (recorded w)"
  shows "ledger w' = ledger w \<and> bodies w' = bodies w
         \<and> (\<forall>e \<in> set (since w w'). \<not> isWrite (fst e))
         \<and> (r = None \<or> (\<exists>v. r = Some (FailedCheck v)))"
  using assms
proof (induction ms arbitrary: w)
  case Nil
  then show ?case by (simp add: since_def)
next
  case (Cons m ms)
  from Cons.prems(1) show ?case
  proof (cases rule: run_Cons_cases)
    case skipped
    let ?w1 = "w\<lparr>faults := tl (faults w), trace := trace w @ [(CallCheck (Version m), True)],
                 logs := logs w @ [AlreadyApplied (Version m) (Name m)]\<rparr>"
    have s: "since w w' = [(CallCheck (Version m), True)] @ since ?w1 w'"
      by (rule run_since[OF skipped(4)]) simp
    have "recorded ?w1 = recorded w" by (simp add: recorded_def)
    with Cons.IH[OF skipped(4)] Cons.prems(2) show ?thesis unfolding s by simp
  qed (use Cons.prems(2) in \<open>simp_all add: since_def\<close>)
qed

lemma run_all_skipped:
  assumes "Version ` set ms \<subseteq> set (recorded w)" and "ledger w \<noteq> None"
    and "True \<notin> set (take (length ms) (faults w))"
  shows "applyPendingMigrations fs ms w =
           (None, w\<lparr>faults := drop (length ms) (faults w),
                    trace := trace w @ map (\<lambda>m. (CallCheck (Version m), True)) ms,
                    logs := logs w @ map (\<lambda>m. AlreadyApplied (Version m) (Name m)) ms\<rparr>)"
  using assms
proof (induction ms arbitrary: w)
  case Nil
  then show ?case by simp
next
  case (Cons m ms)
  let ?w1 = "w\<lparr>faults := tl (faults w), trace := trace w @ [(CallCheck (Version m), True)],
               logs := logs w @ [AlreadyApplied (Version m) (Name m)]\<rparr>"
  from Cons.prems(3) have nf: "\<not> (faults w \<noteq> [] \<and> hd (faults w))"
    by (cases "faults w") auto
  from Cons.prems(3) have nf': "True \<notin> set (take (length ms) (faults ?w1))"
    by (cases "faults w") auto
  have rec: "recorded ?w1 = recorded w" by (simp add: recorded_def)
  from check_answers[OF Cons.prems(2) nf, of "Version m"] Cons.prems(1)
  have "applyPendingMigrations fs (m # ms) w = applyPendingMigrations fs ms ?w1" by simp
  also have "\<dots> = (None, ?w1\<lparr>faults := drop (length ms) (faults ?w1),
                    trace := trace ?w1 @ map (\<lambda>m. (CallCheck (Version m), True)) ms,
                    logs := logs ?w1 @ map (\<lambda>m. AlreadyApplied (Version m) (Name m)) ms\<rparr>)"
    using Cons.IH[of ?w1] Cons.prems(1,2) nf' rec by simp
  finally show ?case by (simp add: drop_Suc)
qed

lemma ensure_cases:
  assumes "ensureMigrationsTable w = (r, w1)"
  obtains (failed) "faults w \<noteq> [] \<and> hd (faults w)" "r = Some FailedEnsureTable"
      "w1 = w\<lparr>faults := tl (faults w), trace := trace w @ [(CallEnsureTable, False)]\<rparr>"
  | (ensured) "\<not> (faults w \<noteq> [] \<and> hd (faults w))" "r = None"
      "w1 = w\<lparr>ledger := Some (case ledger w of None \<Rightarrow> [] | Some rows \<Rightarrow> rows),
               faults := tl (faults w), trace := trace w @ [(CallEnsureTable, True)]\<rparr>"
  using assms
  by (auto simp: ensureMigrationsTable_def execCreateTable_def nextFault_def traced_def
      split: if_splits)

text \<open>
  C2. Fail-fast. With descriptors of versions 1, 2, 3, an empty ledger and a store that
  executes the first body, when the execution of the second body fails (the store does
  not accept it, or the call itself fails), the run records version 1, ends with
  "failed to execute migration" for the second descriptor and makes no call for the
  third: the trace ends at the failed execution and the ledger holds version 1 only. In
  general, when the run has reached a pending descriptor and reading, executing or
  recording it fails, the whole run ends with that failure in the very state of the
  failure, whatever descriptors follow.
\<close>

theorem fail_fast:
  "(Version ma = 1 \<and> Version mb = 2 \<and> Version mc = 3 \<and> ledger w = Some []
    \<and> True \<notin> set (take 4 (faults w))
    \<and> ReadFile fs (Path ma) = Some ba \<and> ReadFile fs (Path mb) = Some bb
    \<and> accepts w (bodies w) ba
    \<and> (\<not> accepts w (bodies w @ [ba]) bb \<or> (4 < length (faults w) \<and> faults w ! 4))
    \<longrightarrow> applyPendingMigrations fs [ma, mb, mc] w =
          (Some (FailedExecute (Name mb)),
           w\<lparr>ledger := Some [\<lparr>version = 1, applied_at = Some (now w)\<rparr>],
              bodies := bodies w @ [ba],
              faults := drop 5 (faults w),
              trace := trace w @ [(CallCheck 1, True), (CallExec ma ba, True), (CallRecord 1, True),
                                  (CallCheck 2, True), (CallExec mb bb, False)]\<rparr>))
   \<and> (applyPendingMigrations fs pre wa = (None, wb)
      \<and> migrationAlreadyApplied (Version m) wb = (Inr False, wc)
      \<and> applyMigration fs m wc = (Some e, wd)
      \<longrightarrow> applyPendingMigrations fs (pre @ m # post) wa = (Some e, wd)
          \<and> ((\<exists>c. ReadFile fs (Path m) = Some c \<and> e = FailedExecute (Name m)
                  \<and> since wb wd = [(CallCheck (Version m), True), (CallExec m c, False)])
              \<or> (\<exists>c. ReadFile fs (Path m) = Some c \<and> e = FailedRecord (Version m)
                  \<and> since wb wd = [(CallCheck (Version m), True), (CallExec m c, True),
                                    (CallRecord (Version m), False)])
              \<or> (ReadFile fs (Path m) = None \<and> e = FailedReadFile (Path m)
                  \<and> since wb wd = [(CallCheck (Version m), True)])))"
proof (intro conjI impI)
  assume a: "Version ma = 1 \<and> Version mb = 2 \<and> Version mc = 3 \<and> ledger w = Some []
    \<and> True \<notin> set (take 4 (faults w))
    \<and> ReadFile fs (Path ma) = Some ba \<and> ReadFile fs (Path mb) = Some bb
    \<and> accepts w (bodies w) ba
    \<and> (\<not> accepts w (bodies w @ [ba]) bb \<or> (4 < length (faults w) \<and> faults w ! 4))"
  show "applyPendingMigrations fs [ma, mb, mc] w =
          (Some (FailedExecute (Name mb)),
           w\<lparr>ledger := Some [\<lparr>version = 1, applied_at = Some (now w)\<rparr>],
              bodies := bodies w @ [ba],
              faults := drop 5 (faults w),
              trace := trace w @ [(CallCheck 1, True), (CallExec ma ba, True), (CallRecord 1, True),
                                  (CallCheck 2, True), (CallExec mb bb, False)]\<rparr>)"
  proof (cases "faults w")
    case Nil
    with a show ?thesis
      by (simp add: migrationAlreadyApplied_def queryExists_def applyMigration_def execBody_def
          execInsert_def nextFault_def traced_def)
  next
    case (Cons f1 r1)
    show ?thesis
    proof (cases r1)
      case Nil
      with a Cons show ?thesis
        by (simp add: migrationAlreadyApplied_def queryExists_def applyMigration_def execBody_def
            execInsert_def nextFault_def traced_def)
    next
      case (Cons f2 r2)
      note c2 = this
      show ?thesis
      proof (cases r2)
        case Nil
        with a \<open>faults w = f1 # r1\<close> c2 show ?thesis
          by (simp add: migrationAlreadyApplied_def queryExists_def applyMigration_def execBody_def
              execInsert_def nextFault_def traced_def)
      next
        case (Cons f3 r3)
        note c3 = this
        show ?thesis
        proof (cases r3)
          case Nil
          with a \<open>faults w = f1 # r1\<close> c2 c3 show ?thesis
            by (simp add: migrationAlreadyApplied_def queryExists_def applyMigration_def execBody_def
                execInsert_def nextFault_def traced_def)
        next
          case (Cons f4 r4)
          with a \<open>faults w = f1 # r1\<close> c2 c3 show ?thesis
            by (cases r4)
               (auto simp: migrationAlreadyApplied_def queryExists_def applyMigration_def execBody_def
                execInsert_def nextFault_def traced_def)
        qed
      qed
    qed
  qed
next
  assume b: "applyPendingMigrations fs pre wa = (None, wb)
      \<and> migrationAlreadyApplied (Version m) wb = (Inr False, wc)
      \<and> applyMigration fs m wc = (Some e, wd)"
  then show "applyPendingMigrations fs (pre @ m # post) wa = (Some e, wd)"
    by (simp add: run_append)
next
  assume b: "applyPendingMigrations fs pre wa = (None, wb)
      \<and> migrationAlreadyApplied (Version m) wb = (Inr False, wc)
      \<and> applyMigration fs m wc = (Some e, wd)"
  from b have q: "migrationAlreadyApplied (Version m) wb = (Inr False, wc)" by simp
  from b have ap: "applyMigration fs m wc = (Some e, wd)" by simp
  from q have wc: "wc = wb\<lparr>faults := tl (faults wb),
                           trace := trace wb @ [(CallCheck (Version m), True)]\<rparr>"
    by (cases rule: check_cases) simp_all
  from ap show "(\<exists>c. ReadFile fs (Path m) = Some c \<and> e = FailedExecute (Name m)
                  \<and> since wb wd = [(CallCheck (Version m), True), (CallExec m c, False)])
              \<or> (\<exists>c. ReadFile fs (Path m) = Some c \<and> e = FailedRecord (Version m)
                  \<and> since wb wd = [(CallCheck (Version m), True), (CallExec m c, True),
                                    (CallRecord (Version m), False)])
              \<or> (ReadFile fs (Path m) = None \<and> e = FailedReadFile (Path m)
                  \<and> since wb wd = [(CallCheck (Version m), True)])"
    by (cases rule: apply_cases) (simp_all add: wc since_def)
qed


lemma filter_none: "length (filter P xs) \<le> 0 \<Longrightarrow> \<forall>x \<in> set xs. \<not> P x"
  by (simp add: filter_empty_conv)

text \<open>
  C3. Whatever the outcome of a run, the ledger after it is the ledger before it with
  the rows \<open>appended w w'\<close> at its end: the new versions are distinct and were not present, each new row has a
  timestamp, and each belongs to a descriptor of the run whose body the store executed
  without error during the run; no body is executed and no version recorded for a version
  that was present. After a successful run the ledger holds the versions it held and those
  of the descriptors, so over descriptors 1, 2, 3 and an empty ledger exactly 1, 2, 3.
\<close>

theorem ledger_grows_only:
  assumes "applyPendingMigrations fs ms w = (r, w')" and "ledger w = Some rows"
  shows "ledger w' = Some (rows @ appended w w')
         \<and> distinct (map version (appended w w'))
         \<and> set (map version (appended w w')) \<inter> set (map version rows) = {}
         \<and> (\<forall>row \<in> set (appended w w').
               applied_at row \<noteq> None
               \<and> (\<exists>m \<in> set ms. \<exists>c.
                     Version m = version row \<and> ReadFile fs (Path m) = Some c
                     \<and> (CallExec m c, True) \<in> set (since w w')))
         \<and> (\<forall>v \<in> set (map version rows). \<forall>e \<in> set (since w w').
               \<not> isExecFor v (fst e) \<and> fst e \<noteq> CallRecord v)
         \<and> (r = None \<longrightarrow> set (recorded w') = set (recorded w) \<union> Version ` set ms)
         \<and> (r = None \<and> rows = [] \<and> Version ` set ms = {1, 2, 3}
              \<longrightarrow> set (recorded w') = {1, 2, 3})"
proof -
  from run_frame[OF assms(1)] assms(2) obtain add where add: "ledger w' = Some (rows @ add)"
    by blast
  with assms(2) have ap: "appended w w' = add" by (simp add: appended_def rowsOf_def)
  note rr = run_rows[OF assms(1,2) add]
  have rec: "recorded w = map version rows" "recorded w' = map version (rows @ add)"
    using assms(2) add by (simp_all add: recorded_def)
  have 1: "distinct (map version add)" and 2: "set (map version add) \<inter> set (map version rows) = {}"
    using rr by simp_all
  have 3: "\<forall>row \<in> set add.
                 applied_at row \<noteq> None
                 \<and> (\<exists>m \<in> set ms. \<exists>c.
                       Version m = version row \<and> ReadFile fs (Path m) = Some c
                       \<and> (CallExec m c, True) \<in> set (since w w'))"
    using rr by fastforce
  have 4: "\<not> isExecFor v (fst e) \<and> fst e \<noteq> CallRecord v"
    if "v \<in> set (map version rows)" and "e \<in> set (since w w')" for v e
  proof -
    from run_counts[OF assms(1), of v] that(1) rec(1)
    have "length (filter (\<lambda>e. isExecFor v (fst e)) (since w w')) \<le> 0"
      and "length (filter (\<lambda>e. fst e = CallRecord v) (since w w')) \<le> 0"
      by simp_all
    from filter_none[OF this(1)] filter_none[OF this(2)] that(2) show ?thesis by blast
  qed
  have sub: "version ` set add \<subseteq> Version ` set ms"
    using rr by force
  have 5: "set (recorded w') = set (recorded w) \<union> Version ` set ms" if "r = None"
  proof -
    from that assms(1) have "applyPendingMigrations fs ms w = (None, w')" by simp
    from run_success_recorded[OF this] rec have "Version ` set ms \<subseteq> set (map version (rows @ add))"
      by simp
    with sub rec show ?thesis by auto
  qed
  have 6: "set (recorded w') = {1, 2, 3}"
    if "r = None \<and> rows = [] \<and> Version ` set ms = {1, 2, 3}"
    using 5 that rec by simp
  from add 1 2 3 4 5 6 show ?thesis unfolding ap by blast
qed

lemma RunMigrations_cases:
  assumes "RunMigrations srt fs w = (r, w')"
  obtains (no_table) "faults w \<noteq> [] \<and> hd (faults w)" "r = Some FailedEnsureTable"
      "w' = w\<lparr>faults := tl (faults w), trace := trace w @ [(CallEnsureTable, False)]\<rparr>"
  | (no_dir) "\<not> (faults w \<noteq> [] \<and> hd (faults w))" "ReadDir fs migrationsDir = None"
      "r = Some FailedReadDir"
      "w' = w\<lparr>ledger := Some (case ledger w of None \<Rightarrow> [] | Some rows \<Rightarrow> rows),
               faults := tl (faults w), trace := trace w @ [(CallEnsureTable, True)]\<rparr>"
  | (ran) files w2 where "\<not> (faults w \<noteq> [] \<and> hd (faults w))"
      "ReadDir fs migrationsDir = Some files"
      "applyPendingMigrations fs (srt (fst (collectMigrations migrationsDir files)))
         (w\<lparr>ledger := Some (case ledger w of None \<Rightarrow> [] | Some rows \<Rightarrow> rows),
            faults := tl (faults w), trace := trace w @ [(CallEnsureTable, True)],
            logs := logs w @ snd (collectMigrations migrationsDir files)\<rparr>) = (r, w2)"
      "w' = (if r = None then w2\<lparr>logs := logs w2 @ [MigrationsCompleted]\<rparr> else w2)"
proof -
  obtain e w1 where e: "ensureMigrationsTable w = (e, w1)" by fastforce
  from e show ?thesis
  proof (cases rule: ensure_cases)
    case failed
    with assms e no_table show ?thesis by (simp add: RunMigrations_def)
  next
    case ensured
    show ?thesis
    proof (cases "ReadDir fs migrationsDir")
      case None
      with assms e ensured no_dir show ?thesis
        by (simp add: RunMigrations_def loadMigrationFiles_def)
    next
      case (Some files)
      let ?wA = "w\<lparr>ledger := Some (case ledger w of None \<Rightarrow> [] | Some rows \<Rightarrow> rows),
            faults := tl (faults w), trace := trace w @ [(CallEnsureTable, True)],
            logs := logs w @ snd (collectMigrations migrationsDir files)\<rparr>"
      obtain a w2 where a: "applyPendingMigrations fs (srt (fst (collectMigrations migrationsDir files))) ?wA = (a, w2)"
        by fastforce
      from assms e ensured Some a
      have "r = a" "w' = (if a = None then w2\<lparr>logs := logs w2 @ [MigrationsCompleted]\<rparr> else w2)"
        by (auto simp: RunMigrations_def loadMigrationFiles_Inr split: option.splits)
      with a ensured(1) Some ran[of files w2] show ?thesis by simp
    qed
  qed
qed

text \<open>
  C1. After a first run that succeeded, a second run on the same directory, with any sort
  meeting the contract and any faults of the store, executes no migration body and
  records no version: ledger and schema stay as they are. When the store does not fail,
  the second run succeeds, and what it does is create-if-absent and one check per
  discovered descriptor, each answered "already applied" and logged as skipped.
\<close>

theorem second_run_applies_nothing:
  assumes "sortsByVersion srt" and "sortsByVersion srt'"
    and "RunMigrations srt fs w = (None, w1)"
  shows "\<exists>r w2. RunMigrations srt' fs (w1\<lparr>faults := fl\<rparr>) = (r, w2)
           \<and> ledger w2 = ledger w1 \<and> bodies w2 = bodies w1
           \<and> (\<forall>e \<in> set (since w1 w2). \<not> isWrite (fst e))
           \<and> (True \<notin> set fl
                \<longrightarrow> r = None
                    \<and> (\<exists>ms ls. loadMigrationFiles srt' fs migrationsDir = Inr (ms, ls)
                          \<and> since w1 w2
                              = (CallEnsureTable, True) # map (\<lambda>m. (CallCheck (Version m), True)) ms
                          \<and> logs w2 = logs w1 @ ls
                              @ map (\<lambda>m. AlreadyApplied (Version m) (Name m)) ms
                              @ [MigrationsCompleted]))"
proof -
  from assms(3) obtain files wb where
    rd: "ReadDir fs migrationsDir = Some files"
    and run1: "applyPendingMigrations fs (srt (fst (collectMigrations migrationsDir files)))
         (w\<lparr>ledger := Some (case ledger w of None \<Rightarrow> [] | Some rows \<Rightarrow> rows),
            faults := tl (faults w), trace := trace w @ [(CallEnsureTable, True)],
            logs := logs w @ snd (collectMigrations migrationsDir files)\<rparr>) = (None, wb)"
    and w1: "w1 = wb\<lparr>logs := logs wb @ [MigrationsCompleted]\<rparr>"
    by (cases rule: RunMigrations_cases) simp_all
  let ?coll = "fst (collectMigrations migrationsDir files)"
  let ?ls = "snd (collectMigrations migrationsDir files)"
  from run_frame[OF run1] obtain rows where "ledger wb = Some rows" by auto
  with w1 have led: "ledger w1 = Some rows" by simp
  from run_success_recorded[OF run1] w1
  have "Version ` set (srt ?coll) \<subseteq> set (recorded w1)" by (simp add: recorded_def)
  then have all: "Version ` set (srt' ?coll) \<subseteq> set (recorded w1)"
    using sortsByVersion_set[OF assms(1)] sortsByVersion_set[OF assms(2)] by simp
  let ?ws = "w1\<lparr>faults := fl\<rparr>"
  let ?wB = "?ws\<lparr>ledger := Some (case ledger ?ws of None \<Rightarrow> [] | Some rows \<Rightarrow> rows),
            faults := tl (faults ?ws), trace := trace ?ws @ [(CallEnsureTable, True)],
            logs := logs ?ws @ ?ls\<rparr>"
  have ledB: "ledger ?wB = ledger w1" using led by simp
  have recB: "recorded ?wB = recorded w1" using led by (simp add: recorded_def)
  obtain r w2 where run2: "RunMigrations srt' fs ?ws = (r, w2)" by fastforce
  from run2 have "ledger w2 = ledger w1 \<and> bodies w2 = bodies w1
           \<and> (\<forall>e \<in> set (since w1 w2). \<not> isWrite (fst e))
           \<and> (True \<notin> set fl
                \<longrightarrow> r = None
                    \<and> (\<exists>ms ls. loadMigrationFiles srt' fs migrationsDir = Inr (ms, ls)
                          \<and> since w1 w2
                              = (CallEnsureTable, True) # map (\<lambda>m. (CallCheck (Version m), True)) ms
                          \<and> logs w2 = logs w1 @ ls
                              @ map (\<lambda>m. AlreadyApplied (Version m) (Name m)) ms
                              @ [MigrationsCompleted]))"
  proof (cases rule: RunMigrations_cases)
    case no_table
    then show ?thesis by (cases fl) (auto simp: since_def)
  next
    case no_dir
    with rd show ?thesis by simp
  next
    case (ran files' w3)
    from ran(2) rd have f: "files' = files" by simp
    from ran(3) f have run3: "applyPendingMigrations fs (srt' ?coll) ?wB = (r, w3)" by simp
    from run_all_applied[OF run3] all recB
    have l3: "ledger w3 = ledger ?wB" and b3: "bodies w3 = bodies ?wB"
      and s3: "\<forall>e \<in> set (since ?wB w3). \<not> isWrite (fst e)"
      by simp_all
    have tr: "trace ?wB = trace w1 @ [(CallEnsureTable, True)]" by simp
    have s: "since w1 w3 = [(CallEnsureTable, True)] @ since ?wB w3"
      by (rule run_since[OF run3 tr])
    have tw2: "trace w2 = trace w3" using ran(4) by simp
    then have sw2: "since w1 w2 = since w1 w3" by (simp add: since_def)
    have 1: "ledger w2 = ledger w1" using ran(4) l3 ledB by simp
    have 2: "bodies w2 = bodies w1" using ran(4) b3 by simp
    have 3: "\<forall>e \<in> set (since w1 w2). \<not> isWrite (fst e)" using s3 unfolding sw2 s by simp
    have 4: "r = None
             \<and> (\<exists>ms ls. loadMigrationFiles srt' fs migrationsDir = Inr (ms, ls)
                   \<and> since w1 w2
                       = (CallEnsureTable, True) # map (\<lambda>m. (CallCheck (Version m), True)) ms
                   \<and> logs w2 = logs w1 @ ls
                       @ map (\<lambda>m. AlreadyApplied (Version m) (Name m)) ms
                       @ [MigrationsCompleted])"
      if nf: "True \<notin> set fl"
    proof -
      from nf have nf': "True \<notin> set (take (length (srt' ?coll)) (faults ?wB))"
        by (cases fl) (auto dest: in_set_takeD)
      have "ledger ?wB \<noteq> None" by simp
      from run_all_skipped[OF _ this nf', of fs] all recB run3
      have r: "r = None"
        and w3: "w3 = ?wB\<lparr>faults := drop (length (srt' ?coll)) (faults ?wB),
                    trace := trace ?wB @ map (\<lambda>m. (CallCheck (Version m), True)) (srt' ?coll),
                    logs := logs ?wB @ map (\<lambda>m. AlreadyApplied (Version m) (Name m)) (srt' ?coll)\<rparr>"
        by simp_all
      have a: "loadMigrationFiles srt' fs migrationsDir = Inr (srt' ?coll, ?ls)"
        by (rule loadMigrationFiles_Inr[OF rd])
      have b: "since w1 w2 = (CallEnsureTable, True) # map (\<lambda>m. (CallCheck (Version m), True)) (srt' ?coll)"
        unfolding sw2 by (subst w3) (simp add: since_def)
      have "logs w3 = logs w1 @ ?ls @ map (\<lambda>m. AlreadyApplied (Version m) (Name m)) (srt' ?coll)"
        by (subst w3) simp
      with ran(4) r
      have c: "logs w2 = logs w1 @ ?ls @ map (\<lambda>m. AlreadyApplied (Version m) (Name m)) (srt' ?coll)
                         @ [MigrationsCompleted]"
        by simp
      from r a b c show ?thesis by blast
    qed
    from 1 2 3 4 show ?thesis by blast
  qed
  with run2 show ?thesis by blast
qed

lemma sortsByVersion_Nil: "sortsByVersion srt \<Longrightarrow> srt [] = []"
  unfolding sortsByVersion_def by (metis mset_zero_iff)

text \<open>
  C8. When the directory is readable and every entry is filtered out (or there is none),
  discovery returns no descriptor, the loop over no descriptor succeeds without touching
  the world, and the whole run makes exactly one call on the store, the creation of the
  ledger table if absent; it leaves schema and ledger rows as they are and succeeds unless
  that one call fails.
\<close>

theorem nothing_to_apply:
  assumes "sortsByVersion srt" and "ReadDir fs migrationsDir = Some files"
    and "\<forall>f \<in> set files. IsDir f \<or> \<not> HasSuffix (fiName f) ''.sql''
           \<or> CHR ''_'' \<notin> set (fiName f)
           \<or> Atoi (hd (SplitN2 (fiName f) (CHR ''_''))) = None"
  shows "(\<exists>ls. loadMigrationFiles srt fs migrationsDir = Inr ([], ls))
         \<and> applyPendingMigrations fs [] w = (None, w)
         \<and> (\<exists>r w'. RunMigrations srt fs w = (r, w')
               \<and> map fst (since w w') = [CallEnsureTable]
               \<and> bodies w' = bodies w \<and> recorded w' = recorded w
               \<and> (r = None \<longleftrightarrow> \<not> (faults w \<noteq> [] \<and> hd (faults w)))
               \<and> (r = None \<or> r = Some FailedEnsureTable))"
proof -
  have "fst (toMigrationFile migrationsDir f) = None" if "f \<in> set files" for f
    using assms(3) that by (auto simp: toMigrationFile_cases SplitN2_hd)
  then have "fst (collectMigrations migrationsDir files) = []"
    by (simp add: collect_fst List.map_filter_def filter_empty_conv)
  then have none: "srt (fst (collectMigrations migrationsDir files)) = []"
    using sortsByVersion_Nil[OF assms(1)] by simp
  have l: "loadMigrationFiles srt fs migrationsDir = Inr ([], snd (collectMigrations migrationsDir files))"
    using loadMigrationFiles_Inr[OF assms(2), of srt] none by simp
  obtain r w' where run: "RunMigrations srt fs w = (r, w')" by fastforce
  from run have "map fst (since w w') = [CallEnsureTable]
               \<and> bodies w' = bodies w \<and> recorded w' = recorded w
               \<and> (r = None \<longleftrightarrow> \<not> (faults w \<noteq> [] \<and> hd (faults w)))
               \<and> (r = None \<or> r = Some FailedEnsureTable)"
  proof (cases rule: RunMigrations_cases)
    case no_table
    then show ?thesis by (simp add: since_def recorded_def)
  next
    case no_dir
    with assms(2) show ?thesis by simp
  next
    case (ran files' w2)
    from ran(2) assms(2) have "files' = files" by simp
    with ran(3) none have "r = None" and
      "w2 = w\<lparr>ledger := Some (case ledger w of None \<Rightarrow> [] | Some rows \<Rightarrow> rows),
            faults := tl (faults w), trace := trace w @ [(CallEnsureTable, True)],
            logs := logs w @ snd (collectMigrations migrationsDir files)\<rparr>"
      by simp_all
    with ran(1,4) show ?thesis by (simp add: since_def recorded_def split: option.splits)
  qed
  with run l show ?thesis by auto
qed

text \<open>
  C9. Discovery keeps a descriptor for every accepted file, also when several carry the
  same version. In one run over the result, whatever its outcome, at most one body is
  sent for execution and at most one insert is made per version; and once a run has come
  through a descriptor of some version, the check for a later descriptor of that version
  answers true and the descriptor is skipped.
\<close>

theorem one_application_per_version:
  assumes "sortsByVersion srt" and "ReadDir fs dir = Some files"
  shows "\<exists>ms ls. loadMigrationFiles srt fs dir = Inr (ms, ls)
           \<and> (\<forall>f \<in> set files. \<forall>m. fst (toMigrationFile dir f) = Some m \<longrightarrow> m \<in> set ms)
           \<and> length ms = length (filter (\<lambda>f. fst (toMigrationFile dir f) \<noteq> None) files)
           \<and> (\<forall>w r w' v. applyPendingMigrations fs ms w = (r, w')
                 \<longrightarrow> length (filter (\<lambda>e. isExecFor v (fst e)) (since w w')) \<le> 1
                     \<and> length (filter (\<lambda>e. fst e = CallRecord v) (since w w')) \<le> 1)
           \<and> (\<forall>pre m post w wa.
                 ms = pre @ m # post \<and> applyPendingMigrations fs pre w = (None, wa)
                 \<and> Version m \<in> Version ` set pre \<and> \<not> (faults wa \<noteq> [] \<and> hd (faults wa))
                 \<longrightarrow> fst (migrationAlreadyApplied (Version m) wa) = Inr True
                     \<and> applyPendingMigrations fs (m # post) wa
                         = applyPendingMigrations fs post
                             (wa\<lparr>faults := tl (faults wa),
                                 trace := trace wa @ [(CallCheck (Version m), True)],
                                 logs := logs wa @ [AlreadyApplied (Version m) (Name m)]\<rparr>))"
proof -
  let ?coll = "fst (collectMigrations dir files)"
  let ?ms = "srt ?coll"
  have l: "loadMigrationFiles srt fs dir = Inr (?ms, snd (collectMigrations dir files))"
    by (rule loadMigrationFiles_Inr[OF assms(2)])
  have perm: "mset ?ms = mset ?coll" using assms(1) by (simp add: sortsByVersion_def)
  have 1: "m \<in> set ?ms" if "f \<in> set files" and "fst (toMigrationFile dir f) = Some m" for f m
  proof -
    from that have "m \<in> set ?coll" by (force simp: collect_fst List.map_filter_def)
    then show ?thesis using sortsByVersion_set[OF assms(1)] by simp
  qed
  have "length ?ms = length ?coll" using perm by (rule mset_eq_length)
  then have 2: "length ?ms = length (filter (\<lambda>f. fst (toMigrationFile dir f) \<noteq> None) files)"
    by (simp add: collect_fst List.map_filter_def)
  have 3: "length (filter (\<lambda>e. isExecFor v (fst e)) (since w w')) \<le> 1
           \<and> length (filter (\<lambda>e. fst e = CallRecord v) (since w w')) \<le> 1"
    if "applyPendingMigrations fs ?ms w = (r, w')" for w r w' v
    using run_counts[OF that, of v] by (auto split: if_splits)
  have 4: "fst (migrationAlreadyApplied (Version m) wa) = Inr True
           \<and> applyPendingMigrations fs (m # post) wa
               = applyPendingMigrations fs post
                   (wa\<lparr>faults := tl (faults wa),
                       trace := trace wa @ [(CallCheck (Version m), True)],
                       logs := logs wa @ [AlreadyApplied (Version m) (Name m)]\<rparr>)"
    if "applyPendingMigrations fs pre w = (None, wa)" and "Version m \<in> Version ` set pre"
      and "\<not> (faults wa \<noteq> [] \<and> hd (faults wa))" for pre m post w wa
  proof -
    from run_success_recorded[OF that(1)] that(2) have in_l: "Version m \<in> set (recorded wa)" by blast
    then have "ledger wa \<noteq> None" by (cases "ledger wa") (auto simp: recorded_def)
    from check_answers[OF this that(3), of "Version m"] in_l show ?thesis by simp
  qed
  from l 1 2 3 4 show ?thesis by blast
qed

text \<open>
  C7. Execution and recording are two calls. When the run reaches a pending descriptor,
  the store executes its body and the insert of its version then fails, the run ends with
  "failed to record migration": the schema holds the body while the ledger is as before
  and lacks the version. A later run over the same descriptors, as long as the store does
  not fail on the checks and on the execution, finds the check for that version false
  and sends the same body for execution again.
\<close>

theorem execute_and_record_not_atomic:
  assumes "applyPendingMigrations fs pre w = (None, wa)"
    and "migrationAlreadyApplied (Version m) wa = (Inr False, wb)"
    and "ReadFile fs (Path m) = Some c"
    and "execBody m c wb = (False, wc)"
    and "execInsert (Version m) wc = (True, wd)"
  shows "applyPendingMigrations fs (pre @ m # post) w = (Some (FailedRecord (Version m)), wd)
         \<and> bodies wd = bodies wa @ [c] \<and> ledger wd = ledger wa
         \<and> Version m \<notin> set (recorded wd)
         \<and> since wa wd = [(CallCheck (Version m), True), (CallExec m c, True),
                          (CallRecord (Version m), False)]
         \<and> (True \<notin> set (take (length pre + 2) fl)
              \<longrightarrow> (\<exists>r w2 rest.
                     applyPendingMigrations fs (pre @ m # post) (wd\<lparr>faults := fl\<rparr>) = (r, w2)
                     \<and> since wd w2
                         = map (\<lambda>m. (CallCheck (Version m), True)) pre
                           @ [(CallCheck (Version m), True), (CallExec m c, accepts wd (bodies wd) c)]
                           @ rest))"
proof -
  from assms(3,4,5) have ap: "applyMigration fs m wb = (Some (FailedRecord (Version m)), wd)"
    by (simp add: applyMigration_def)
  from assms(2) have wb: "wb = wa\<lparr>faults := tl (faults wa),
                                  trace := trace wa @ [(CallCheck (Version m), True)]\<rparr>"
    and nrec: "Version m \<notin> set (recorded wa)" and led: "ledger wa \<noteq> None"
    by (cases rule: check_cases; simp)+
  from ap assms(3) have wd: "wd = wb\<lparr>bodies := bodies wb @ [c], faults := tl (tl (faults wb)),
               trace := trace wb @ [(CallExec m c, True), (CallRecord (Version m), False)]\<rparr>"
    by (cases rule: apply_cases) simp_all
  have 1: "applyPendingMigrations fs (pre @ m # post) w = (Some (FailedRecord (Version m)), wd)"
    using assms(1,2) ap by (simp add: run_append)
  have 2: "bodies wd = bodies wa @ [c]" "ledger wd = ledger wa" by (simp_all add: wd wb)
  have recd: "recorded wd = recorded wa" using 2(2) by (simp add: recorded_def)
  have 3: "Version m \<notin> set (recorded wd)" using nrec recd by simp
  have 4: "since wa wd = [(CallCheck (Version m), True), (CallExec m c, True),
                          (CallRecord (Version m), False)]"
    by (simp add: wd wb since_def)
  have 5: "\<exists>r w2 rest.
             applyPendingMigrations fs (pre @ m # post) (wd\<lparr>faults := fl\<rparr>) = (r, w2)
             \<and> since wd w2
                 = map (\<lambda>m. (CallCheck (Version m), True)) pre
                   @ [(CallCheck (Version m), True), (CallExec m c, accepts wd (bodies wd) c)]
                   @ rest"
    if nf: "True \<notin> set (take (length pre + 2) fl)"
  proof -
    let ?ws = "wd\<lparr>faults := fl\<rparr>"
    let ?wp = "?ws\<lparr>faults := drop (length pre) (faults ?ws),
                    trace := trace ?ws @ map (\<lambda>m. (CallCheck (Version m), True)) pre,
                    logs := logs ?ws @ map (\<lambda>m. AlreadyApplied (Version m) (Name m)) pre\<rparr>"
    have recs: "recorded ?ws = recorded wa" using recd by (simp add: recorded_def)
    from run_success_recorded[OF assms(1)] have allp: "Version ` set pre \<subseteq> set (recorded ?ws)"
      using recs by simp
    have leds: "ledger ?ws \<noteq> None" using led 2(2) by simp
    from nf have nfp: "True \<notin> set (take (length pre) (faults ?ws))"
      by (auto simp: in_set_conv_nth)
    note skip = run_all_skipped[OF allp leds nfp, of fs]
    obtain r w2 where run: "applyPendingMigrations fs (m # post) ?wp = (r, w2)" by fastforce
    have whole: "applyPendingMigrations fs (pre @ m # post) ?ws = (r, w2)"
      using skip run by (simp add: run_append)
    have trp: "trace ?wp = trace wd @ map (\<lambda>m. (CallCheck (Version m), True)) pre" by simp
    have s: "since wd w2 = map (\<lambda>m. (CallCheck (Version m), True)) pre @ since ?wp w2"
      by (rule run_since[OF run trp])
    have f1: "\<not> (faults ?wp \<noteq> [] \<and> hd (faults ?wp))"
    proof
      assume a: "faults ?wp \<noteq> [] \<and> hd (faults ?wp)"
      then have "length pre < length fl" by simp
      moreover from a have "fl ! length pre"
        using hd_drop_conv_nth[of "length pre" fl] by simp
      ultimately have "True \<in> set (take (length pre + 2) fl)"
        by (auto simp: in_set_conv_nth intro!: exI[of _ "length pre"])
      with nf show False by simp
    qed
    have f2: "\<not> (tl (faults ?wp) \<noteq> [] \<and> hd (tl (faults ?wp)))"
    proof
      assume a: "tl (faults ?wp) \<noteq> [] \<and> hd (tl (faults ?wp))"
      have t: "tl (faults ?wp) = drop (Suc (length pre)) fl" by (simp add: drop_Suc tl_drop)
      from a t have "Suc (length pre) < length fl" by simp
      moreover from a t have "fl ! Suc (length pre)"
        using hd_drop_conv_nth[of "Suc (length pre)" fl] by simp
      ultimately have "True \<in> set (take (length pre + 2) fl)"
        by (auto simp: in_set_conv_nth intro!: exI[of _ "Suc (length pre)"])
      with nf show False by simp
    qed
    have recp: "recorded ?wp = recorded wa" using recs by (simp add: recorded_def)
    have ledp: "ledger ?wp \<noteq> None" using leds by simp
    have acc: "accepts ?wp (bodies ?wp) c = accepts wd (bodies wd) c" by simp
    from run have "\<exists>rest. since ?wp w2
        = [(CallCheck (Version m), True), (CallExec m c, accepts wd (bodies wd) c)] @ rest"
    proof (cases rule: run_Cons_cases)
      case check_failed
      from check_failed(2) f1 ledp show ?thesis by blast
    next
      case skipped
      from skipped(1) nrec recp show ?thesis by simp
    next
      case unread
      from unread(2) assms(3) show ?thesis by simp
    next
      case (unexecuted c')
      from unexecuted(2) assms(3) have cc: "c' = c" by simp
      from unexecuted(4) f2 have "\<not> accepts ?wp (bodies ?wp) c'" by blast
      then have "\<not> accepts wd (bodies wd) c'" by simp
      with unexecuted(5) cc show ?thesis by (simp add: since_def)
    next
      case (unrecorded c')
      from unrecorded(2) assms(3) have cc: "c' = c" by simp
      from unrecorded(4) have "accepts wd (bodies wd) c'" by simp
      with unrecorded(6) cc show ?thesis by (simp add: since_def)
    next
      case (applied c' rows)
      have tr: "trace (?wp\<lparr>ledger := Some (rows @ [\<lparr>version = Version m, applied_at = Some (now ?wp)\<rparr>]),
            bodies := bodies ?wp @ [c'], faults := tl (tl (tl (faults ?wp))),
            trace := trace ?wp @ [(CallCheck (Version m), True), (CallExec m c', True),
                                (CallRecord (Version m), True)]\<rparr>)
          = trace ?wp @ [(CallCheck (Version m), True), (CallExec m c', True),
                                (CallRecord (Version m), True)]" by simp
      from applied(2) assms(3) have cc: "c' = c" by simp
      from applied(3) have "accepts wd (bodies wd) c'" by simp
      with run_since[OF applied(5) tr] cc show ?thesis by simp
    qed
    with s whole show ?thesis by auto
  qed
  from 1 2 3 4 5 show ?thesis by blast
qed

section \<open>The properties on the sample runs\<close>

text \<open>
  Each property above, used on a concrete directory and store, with every hypothesis
  evaluated there.
\<close>

lemmas store_defs = ensureMigrationsTable_def execCreateTable_def migrationAlreadyApplied_def
  queryExists_def applyMigration_def execBody_def execInsert_def nextFault_def traced_def

lemma three_descriptors:
  "loadMigrationFiles sortSlice (threeFs threeFiles) migrationsDir =
     Inr ([initMigration, columnMigration, indexMigration], [])"
  by (simp add: three_loaded initMigration_def columnMigration_def indexMigration_def)

lemma three_read:
  "ReadFile (threeFs l) (Path initMigration) = Some ''CREATE TABLE t''"
  "ReadFile (threeFs l) (Path columnMigration) = Some ''ALTER TABLE t''"
  "ReadFile (threeFs l) (Path indexMigration) = Some ''CREATE INDEX i''"
  by (simp_all add: threeFs_def initMigration_def columnMigration_def indexMigration_def)

lemma three_versions:
  "Version initMigration = 1" "Version columnMigration = 2" "Version indexMigration = 3"
  "Name initMigration = ''1_init.sql''" "Name columnMigration = ''2_add_column.sql''"
  "Name indexMigration = ''3_add_index.sql''"
  by (simp_all add: initMigration_def columnMigration_def indexMigration_def)

lemma first_run:
  "RunMigrations sortSlice (threeFs threeFiles) (freshWorld []) = (None, migratedWorld)"
  by (simp add: RunMigrations_def three_descriptors three_read three_versions store_defs
      freshWorld_def migratedWorld_def sqlAccepts_def)


theorem second_run_applies_nothing_witness:
  "sortsByVersion sortSlice
   \<and> RunMigrations sortSlice (threeFs threeFiles) (freshWorld []) = (None, migratedWorld)
   \<and> True \<notin> set ([] :: bool list)
   \<and> (\<exists>w2. RunMigrations sortSlice (threeFs threeFiles) (migratedWorld\<lparr>faults := []\<rparr>)
               = (None, w2)
         \<and> ledger w2 = ledger migratedWorld \<and> bodies w2 = bodies migratedWorld
         \<and> (\<forall>e \<in> set (since migratedWorld w2). \<not> isWrite (fst e))
         \<and> since migratedWorld w2
             = [(CallEnsureTable, True), (CallCheck 1, True), (CallCheck 2, True),
                (CallCheck 3, True)]
         \<and> logs w2 = logs migratedWorld
             @ [AlreadyApplied 1 ''1_init.sql'', AlreadyApplied 2 ''2_add_column.sql'',
                AlreadyApplied 3 ''3_add_index.sql'', MigrationsCompleted])"
proof -
  from second_run_applies_nothing[OF sortsByVersion_sortSlice sortsByVersion_sortSlice first_run,
      of "[]"]
  obtain r w2 where
    "RunMigrations sortSlice (threeFs threeFiles) (migratedWorld\<lparr>faults := []\<rparr>) = (r, w2)"
    "ledger w2 = ledger migratedWorld" "bodies w2 = bodies migratedWorld"
    "\<forall>e \<in> set (since migratedWorld w2). \<not> isWrite (fst e)"
    "r = None" and
    "\<exists>ms ls. loadMigrationFiles sortSlice (threeFs threeFiles) migrationsDir = Inr (ms, ls)
        \<and> since migratedWorld w2
            = (CallEnsureTable, True) # map (\<lambda>m. (CallCheck (Version m), True)) ms
        \<and> logs w2 = logs migratedWorld @ ls
            @ map (\<lambda>m. AlreadyApplied (Version m) (Name m)) ms @ [MigrationsCompleted]"
    by auto
  then show ?thesis
    using sortsByVersion_sortSlice first_run
    by (auto simp: three_descriptors three_versions)
qed

lemma idle_entries:
  "\<forall>f \<in> set idleFiles. IsDir f \<or> \<not> HasSuffix (fiName f) ''.sql''
      \<or> CHR ''_'' \<notin> set (fiName f)
      \<or> Atoi (hd (SplitN2 (fiName f) (CHR ''_''))) = None"
  by (simp add: idleFiles_def HasSuffix_def SplitN2_def Atoi_def isDigit_def)

theorem nothing_to_apply_witness:
  "sortsByVersion sortSlice \<and> ReadDir idleFs migrationsDir = Some idleFiles
   \<and> map fiName idleFiles = [''README.md'', ''old_1.sql'', ''1.sql'', ''v3_drop.sql'']
   \<and> map IsDir idleFiles = [False, True, False, False]
   \<and> \<not> HasSuffix ''README.md'' ''.sql''
   \<and> CHR ''_'' \<notin> set ''1.sql''
   \<and> Atoi (hd (SplitN2 ''v3_drop.sql'' (CHR ''_''))) = None
   \<and> (\<exists>ls. loadMigrationFiles sortSlice idleFs migrationsDir = Inr ([], ls))
   \<and> (\<exists>w'. RunMigrations sortSlice idleFs (freshWorld []) = (None, w')
         \<and> map fst (since (freshWorld []) w') = [CallEnsureTable]
         \<and> bodies w' = [] \<and> recorded w' = [])"
proof -
  have rd: "ReadDir idleFs migrationsDir = Some idleFiles" by (simp add: idleFs_def)
  have e: "map fiName idleFiles = [''README.md'', ''old_1.sql'', ''1.sql'', ''v3_drop.sql'']"
    "map IsDir idleFiles = [False, True, False, False]"
    by (simp_all add: idleFiles_def)
  have h: "\<not> HasSuffix ''README.md'' ''.sql''" "CHR ''_'' \<notin> set ''1.sql''"
    "Atoi (hd (SplitN2 ''v3_drop.sql'' (CHR ''_''))) = None"
    by (simp_all add: HasSuffix_def SplitN2_def Atoi_def isDigit_def)
  note t = nothing_to_apply[OF sortsByVersion_sortSlice rd idle_entries, of "freshWorld []"]
  note t1 = t[THEN conjunct1]
  from t[THEN conjunct2, THEN conjunct2]
  have t3: "\<exists>w'. RunMigrations sortSlice idleFs (freshWorld []) = (None, w')
         \<and> map fst (since (freshWorld []) w') = [CallEnsureTable]
         \<and> bodies w' = [] \<and> recorded w' = []"
    by (auto simp: freshWorld_def recorded_def)
  show ?thesis by (intro conjI sortsByVersion_sortSlice rd e h t1 t3)
qed


lemma twin_descriptors:
  "loadMigrationFiles sortSlice twinFs migrationsDir = Inr ([initMigration, againMigration], [])"
  by (simp add: loadMigrationFiles_def twinFs_def twinFiles_def toMigrationFile_def
      HasSuffix_def SplitN2_def Atoi_def isDigit_def intSize_def Join_def migrationsDir_def
      sortSlice_def initMigration_def againMigration_def)

lemma init_done:
  "applyPendingMigrations fs' [initMigration] (readyWorld fl) = (r, w')
   \<Longrightarrow> ReadFile fs' (Path initMigration) = Some ''CREATE TABLE t''
   \<Longrightarrow> True \<notin> set (take 3 fl)
   \<Longrightarrow> r = None \<and> w' = initDoneWorld (drop 3 fl)"
  by (cases fl; cases "tl fl"; cases "tl (tl fl)")
     (auto simp: store_defs three_versions readyWorld_def freshWorld_def initDoneWorld_def
       sqlAccepts_def)

theorem one_application_per_version_witness:
  "sortsByVersion sortSlice \<and> ReadDir twinFs migrationsDir = Some twinFiles
   \<and> loadMigrationFiles sortSlice twinFs migrationsDir
       = Inr ([initMigration, againMigration], [])
   \<and> Version initMigration = Version againMigration
   \<and> length [initMigration, againMigration]
       = length (filter (\<lambda>f. fst (toMigrationFile migrationsDir f) \<noteq> None) twinFiles)
   \<and> applyPendingMigrations twinFs [initMigration, againMigration] (readyWorld [])
       = (None, (initDoneWorld [])
                  \<lparr>trace := trace (initDoneWorld []) @ [(CallCheck 1, True)],
                    logs := [AlreadyApplied 1 ''01_again.sql'']\<rparr>)
   \<and> length (filter (\<lambda>e. isExecFor 1 (fst e))
        (since (readyWorld [])
           ((initDoneWorld [])
                  \<lparr>trace := trace (initDoneWorld []) @ [(CallCheck 1, True)],
                    logs := [AlreadyApplied 1 ''01_again.sql'']\<rparr>))) \<le> 1
   \<and> length (filter (\<lambda>e. fst e = CallRecord 1)
        (since (readyWorld [])
           ((initDoneWorld [])
                  \<lparr>trace := trace (initDoneWorld []) @ [(CallCheck 1, True)],
                    logs := [AlreadyApplied 1 ''01_again.sql'']\<rparr>))) \<le> 1
   \<and> [initMigration, againMigration] = [initMigration] @ againMigration # []
   \<and> applyPendingMigrations twinFs [initMigration] (readyWorld []) = (None, initDoneWorld [])
   \<and> Version againMigration \<in> Version ` set [initMigration]
   \<and> \<not> (faults (initDoneWorld []) \<noteq> [] \<and> hd (faults (initDoneWorld [])))
   \<and> fst (migrationAlreadyApplied (Version againMigration) (initDoneWorld [])) = Inr True
   \<and> applyPendingMigrations twinFs (againMigration # []) (initDoneWorld [])
       = applyPendingMigrations twinFs []
           ((initDoneWorld [])
              \<lparr>faults := tl (faults (initDoneWorld [])),
                trace := trace (initDoneWorld []) @ [(CallCheck (Version againMigration), True)],
                logs := logs (initDoneWorld [])
                        @ [AlreadyApplied (Version againMigration) (Name againMigration)]\<rparr>)"
proof -
  let ?end = "(initDoneWorld [])
                  \<lparr>trace := trace (initDoneWorld []) @ [(CallCheck 1, True)],
                    logs := [AlreadyApplied 1 ''01_again.sql'']\<rparr>"
  have rd: "ReadDir twinFs migrationsDir = Some twinFiles" by (simp add: twinFs_def)
  have rf: "ReadFile twinFs (Path initMigration) = Some ''CREATE TABLE t''"
    by (simp add: twinFs_def initMigration_def)
  have v: "Version initMigration = Version againMigration"
    by (simp add: initMigration_def againMigration_def)
  have pre: "applyPendingMigrations twinFs [initMigration] (readyWorld []) = (None, initDoneWorld [])"
    using init_done[of twinFs "[]", OF _ rf] by (cases "applyPendingMigrations twinFs [initMigration] (readyWorld [])") simp
  have run: "applyPendingMigrations twinFs [initMigration, againMigration] (readyWorld []) = (None, ?end)"
    using run_append[of twinFs "[initMigration]" "[againMigration]" "readyWorld []"] pre
    by (simp add: store_defs initDoneWorld_def againMigration_def)
  have nf: "\<not> (faults (initDoneWorld []) \<noteq> [] \<and> hd (faults (initDoneWorld [])))"
    by (simp add: initDoneWorld_def)
  from one_application_per_version[OF sortsByVersion_sortSlice rd]
  obtain ms ls where l: "loadMigrationFiles sortSlice twinFs migrationsDir = Inr (ms, ls)"
    and len: "length ms = length (filter (\<lambda>f. fst (toMigrationFile migrationsDir f) \<noteq> None) twinFiles)"
    and cnt: "\<forall>w r w' v. applyPendingMigrations twinFs ms w = (r, w')
                 \<longrightarrow> length (filter (\<lambda>e. isExecFor v (fst e)) (since w w')) \<le> 1
                     \<and> length (filter (\<lambda>e. fst e = CallRecord v) (since w w')) \<le> 1"
    and skip: "\<forall>pre m post w wa.
                 ms = pre @ m # post \<and> applyPendingMigrations twinFs pre w = (None, wa)
                 \<and> Version m \<in> Version ` set pre \<and> \<not> (faults wa \<noteq> [] \<and> hd (faults wa))
                 \<longrightarrow> fst (migrationAlreadyApplied (Version m) wa) = Inr True
                     \<and> applyPendingMigrations twinFs (m # post) wa
                         = applyPendingMigrations twinFs post
                             (wa\<lparr>faults := tl (faults wa),
                                 trace := trace wa @ [(CallCheck (Version m), True)],
                                 logs := logs wa @ [AlreadyApplied (Version m) (Name m)]\<rparr>)"
    by blast
  from l have ms: "ms = [initMigration, againMigration]" by (simp add: twin_descriptors)
  from cnt run ms
  have c1: "length (filter (\<lambda>e. isExecFor 1 (fst e)) (since (readyWorld []) ?end)) \<le> 1"
    and c2: "length (filter (\<lambda>e. fst e = CallRecord 1) (since (readyWorld []) ?end)) \<le> 1"
    by blast+
  have vin: "Version againMigration \<in> Version ` set [initMigration]" using v by simp
  from skip[rule_format, of "[initMigration]" againMigration "[]" "readyWorld []" "initDoneWorld []"]
    ms pre vin nf
  have s: "fst (migrationAlreadyApplied (Version againMigration) (initDoneWorld [])) = Inr True
   \<and> applyPendingMigrations twinFs (againMigration # []) (initDoneWorld [])
       = applyPendingMigrations twinFs []
           ((initDoneWorld [])
              \<lparr>faults := tl (faults (initDoneWorld [])),
                trace := trace (initDoneWorld []) @ [(CallCheck (Version againMigration), True)],
                logs := logs (initDoneWorld [])
                        @ [AlreadyApplied (Version againMigration) (Name againMigration)]\<rparr>)"
    by simp
  from sortsByVersion_sortSlice rd twin_descriptors v len ms run c1 c2 pre vin nf s
  show ?thesis by simp
qed


lemma broken_read:
  "ReadFile brokenFs (Path initMigration) = Some ''CREATE TABLE t''"
  "ReadFile brokenFs (Path columnMigration) = Some ''ALTER TABEL t''"
  by (simp_all add: brokenFs_def threeFs_def initMigration_def columnMigration_def)

theorem fail_fast_witness:
  "(Version initMigration = 1 \<and> Version columnMigration = 2 \<and> Version indexMigration = 3
    \<and> ledger (readyWorld []) = Some []
    \<and> True \<notin> set (take 4 (faults (readyWorld [])))
    \<and> ReadFile brokenFs (Path initMigration) = Some ''CREATE TABLE t''
    \<and> ReadFile brokenFs (Path columnMigration) = Some ''ALTER TABEL t''
    \<and> accepts (readyWorld []) (bodies (readyWorld [])) ''CREATE TABLE t''
    \<and> \<not> accepts (readyWorld []) (bodies (readyWorld []) @ [''CREATE TABLE t'']) ''ALTER TABEL t'')
   \<and> applyPendingMigrations brokenFs [initMigration, columnMigration, indexMigration]
        (readyWorld [])
       = (Some (FailedExecute ''2_add_column.sql''),
          (initDoneWorld [])
            \<lparr>trace := trace (initDoneWorld [])
                       @ [(CallCheck 2, True), (CallExec columnMigration ''ALTER TABEL t'', False)]\<rparr>)
   \<and> recorded ((initDoneWorld [])
            \<lparr>trace := trace (initDoneWorld [])
                       @ [(CallCheck 2, True), (CallExec columnMigration ''ALTER TABEL t'', False)]\<rparr>)
       = [1]
   \<and> (applyPendingMigrations brokenFs [initMigration] (readyWorld []) = (None, initDoneWorld [])
      \<and> migrationAlreadyApplied (Version columnMigration) (initDoneWorld [])
          = (Inr False,
             (initDoneWorld [])\<lparr>trace := trace (initDoneWorld []) @ [(CallCheck 2, True)]\<rparr>)
      \<and> applyMigration brokenFs columnMigration
           ((initDoneWorld [])\<lparr>trace := trace (initDoneWorld []) @ [(CallCheck 2, True)]\<rparr>)
          = (Some (FailedExecute ''2_add_column.sql''),
             (initDoneWorld [])
               \<lparr>trace := trace (initDoneWorld [])
                          @ [(CallCheck 2, True),
                             (CallExec columnMigration ''ALTER TABEL t'', False)]\<rparr>))
   \<and> applyPendingMigrations brokenFs ([initMigration] @ columnMigration # [indexMigration])
        (readyWorld [])
       = (Some (FailedExecute ''2_add_column.sql''),
          (initDoneWorld [])
            \<lparr>trace := trace (initDoneWorld [])
                       @ [(CallCheck 2, True), (CallExec columnMigration ''ALTER TABEL t'', False)]\<rparr>)"
proof -
  let ?wc = "(initDoneWorld [])\<lparr>trace := trace (initDoneWorld []) @ [(CallCheck 2, True)]\<rparr>"
  let ?wd = "(initDoneWorld [])
            \<lparr>trace := trace (initDoneWorld [])
                       @ [(CallCheck 2, True), (CallExec columnMigration ''ALTER TABEL t'', False)]\<rparr>"
  have h1: "Version initMigration = 1 \<and> Version columnMigration = 2 \<and> Version indexMigration = 3
    \<and> ledger (readyWorld []) = Some []
    \<and> True \<notin> set (take 4 (faults (readyWorld [])))
    \<and> ReadFile brokenFs (Path initMigration) = Some ''CREATE TABLE t''
    \<and> ReadFile brokenFs (Path columnMigration) = Some ''ALTER TABEL t''
    \<and> accepts (readyWorld []) (bodies (readyWorld [])) ''CREATE TABLE t''
    \<and> \<not> accepts (readyWorld []) (bodies (readyWorld []) @ [''CREATE TABLE t'']) ''ALTER TABEL t''"
    by (simp add: three_versions broken_read readyWorld_def freshWorld_def sqlAccepts_def)
  have pre: "applyPendingMigrations brokenFs [initMigration] (readyWorld []) = (None, initDoneWorld [])"
    using init_done[of brokenFs "[]", OF _ broken_read(1)]
    by (cases "applyPendingMigrations brokenFs [initMigration] (readyWorld [])") simp
  have chk: "migrationAlreadyApplied (Version columnMigration) (initDoneWorld []) = (Inr False, ?wc)"
    by (simp add: store_defs three_versions initDoneWorld_def)
  have app: "applyMigration brokenFs columnMigration ?wc
               = (Some (FailedExecute ''2_add_column.sql''), ?wd)"
    by (simp add: store_defs three_versions broken_read initDoneWorld_def sqlAccepts_def)
  have w: "(readyWorld [])\<lparr>ledger := Some [\<lparr>version = 1, applied_at = Some (now (readyWorld []))\<rparr>],
              bodies := bodies (readyWorld []) @ [''CREATE TABLE t''],
              faults := drop 5 (faults (readyWorld [])),
              trace := trace (readyWorld [])
                 @ [(CallCheck 1, True), (CallExec initMigration ''CREATE TABLE t'', True),
                    (CallRecord 1, True), (CallCheck 2, True),
                    (CallExec columnMigration ''ALTER TABEL t'', False)]\<rparr> = ?wd"
    by (simp add: readyWorld_def freshWorld_def initDoneWorld_def)
  note ff = fail_fast[where ma = initMigration and mb = columnMigration and mc = indexMigration
      and w = "readyWorld []" and fs = brokenFs and ba = "''CREATE TABLE t''"
      and bb = "''ALTER TABEL t''" and pre = "[initMigration]" and wa = "readyWorld []"
      and wb = "initDoneWorld []" and m = columnMigration and wc = ?wc
      and e = "FailedExecute ''2_add_column.sql''" and wd = ?wd and post = "[indexMigration]"]
  from ff h1 have r1: "applyPendingMigrations brokenFs [initMigration, columnMigration, indexMigration]
        (readyWorld []) = (Some (FailedExecute ''2_add_column.sql''), ?wd)"
    unfolding w by (simp add: three_versions)
  from ff pre chk app
  have r2: "applyPendingMigrations brokenFs ([initMigration] @ columnMigration # [indexMigration])
        (readyWorld []) = (Some (FailedExecute ''2_add_column.sql''), ?wd)"
    by blast
  have rec: "recorded ?wd = [1]" by (simp add: recorded_def initDoneWorld_def)
  from h1 r1 rec pre chk app r2 show ?thesis by blast
qed

lemma three_applied:
  "applyPendingMigrations (threeFs threeFiles) [initMigration, columnMigration, indexMigration]
     (readyWorld [])
   = (None, migratedWorld\<lparr>trace := tl (trace migratedWorld), logs := []\<rparr>)"
  by (simp add: three_read three_versions store_defs readyWorld_def freshWorld_def
      migratedWorld_def sqlAccepts_def)

lemma three_skipped:
  "applyPendingMigrations (threeFs threeFiles) [initMigration, columnMigration, indexMigration]
     migratedWorld
   = (None, migratedWorld
        \<lparr>trace := trace migratedWorld @ [(CallCheck 1, True), (CallCheck 2, True), (CallCheck 3, True)],
          logs := logs migratedWorld
                  @ [AlreadyApplied 1 ''1_init.sql'', AlreadyApplied 2 ''2_add_column.sql'',
                     AlreadyApplied 3 ''3_add_index.sql'']\<rparr>)"
  by (simp add: three_versions store_defs migratedWorld_def)

lemma column_record_fails:
  "execBody columnMigration ''ALTER TABLE t''
     ((initDoneWorld [False, False, True])
        \<lparr>faults := [False, True],
          trace := trace (initDoneWorld [False, False, True]) @ [(CallCheck 2, True)]\<rparr>)
   = (False,
      (initDoneWorld [False, False, True])
        \<lparr>bodies := [''CREATE TABLE t'', ''ALTER TABLE t''], faults := [True],
          trace := trace (initDoneWorld [False, False, True])
                   @ [(CallCheck 2, True), (CallExec columnMigration ''ALTER TABLE t'', True)]\<rparr>)"
  "execInsert (Version columnMigration)
     ((initDoneWorld [False, False, True])
        \<lparr>bodies := [''CREATE TABLE t'', ''ALTER TABLE t''], faults := [True],
          trace := trace (initDoneWorld [False, False, True])
                   @ [(CallCheck 2, True), (CallExec columnMigration ''ALTER TABLE t'', True)]\<rparr>)
   = (True,
      (initDoneWorld [False, False, True])
        \<lparr>bodies := [''CREATE TABLE t'', ''ALTER TABLE t''], faults := [],
          trace := trace (initDoneWorld [False, False, True])
                   @ [(CallCheck 2, True), (CallExec columnMigration ''ALTER TABLE t'', True),
                      (CallRecord 2, False)]\<rparr>)"
  by (simp_all add: store_defs three_versions initDoneWorld_def sqlAccepts_def)

theorem ledger_grows_only_witness:
  "applyPendingMigrations (threeFs threeFiles) [initMigration, columnMigration, indexMigration]
     (readyWorld [])
     = (None, migratedWorld\<lparr>trace := tl (trace migratedWorld), logs := []\<rparr>)
   \<and> ledger (readyWorld []) = Some []
   \<and> Version ` set [initMigration, columnMigration, indexMigration] = {1, 2, 3}
   \<and> appended (readyWorld []) (migratedWorld\<lparr>trace := tl (trace migratedWorld), logs := []\<rparr>)
      = [\<lparr>version = 1, applied_at = Some 1000\<rparr>, \<lparr>version = 2, applied_at = Some 1000\<rparr>,
         \<lparr>version = 3, applied_at = Some 1000\<rparr>]
   \<and> applied_at \<lparr>version = 2, applied_at = Some 1000\<rparr> \<noteq> None
   \<and> (\<exists>m \<in> set [initMigration, columnMigration, indexMigration]. \<exists>c.
         Version m = version \<lparr>version = 2, applied_at = Some 1000\<rparr>
         \<and> ReadFile (threeFs threeFiles) (Path m) = Some c
         \<and> (CallExec m c, True)
            \<in> set (since (readyWorld [])
                      (migratedWorld\<lparr>trace := tl (trace migratedWorld), logs := []\<rparr>)))
   \<and> set (recorded (migratedWorld\<lparr>trace := tl (trace migratedWorld), logs := []\<rparr>)) = {1, 2, 3}
   \<and> applyPendingMigrations (threeFs threeFiles) [initMigration, columnMigration, indexMigration]
        migratedWorld
      = (None, migratedWorld
           \<lparr>trace := trace migratedWorld
                      @ [(CallCheck 1, True), (CallCheck 2, True), (CallCheck 3, True)],
             logs := logs migratedWorld
                     @ [AlreadyApplied 1 ''1_init.sql'', AlreadyApplied 2 ''2_add_column.sql'',
                        AlreadyApplied 3 ''3_add_index.sql'']\<rparr>)
   \<and> ledger migratedWorld
      = Some [\<lparr>version = 1, applied_at = Some 1000\<rparr>, \<lparr>version = 2, applied_at = Some 1000\<rparr>,
              \<lparr>version = 3, applied_at = Some 1000\<rparr>]
   \<and> since migratedWorld
        (migratedWorld
           \<lparr>trace := trace migratedWorld
                      @ [(CallCheck 1, True), (CallCheck 2, True), (CallCheck 3, True)],
             logs := logs migratedWorld
                     @ [AlreadyApplied 1 ''1_init.sql'', AlreadyApplied 2 ''2_add_column.sql'',
                        AlreadyApplied 3 ''3_add_index.sql'']\<rparr>)
      = [(CallCheck 1, True), (CallCheck 2, True), (CallCheck 3, True)]
   \<and> filter (\<lambda>e. isExecFor 2 (fst e) \<or> fst e = CallRecord 2)
        (since migratedWorld
           (migratedWorld
              \<lparr>trace := trace migratedWorld
                         @ [(CallCheck 1, True), (CallCheck 2, True), (CallCheck 3, True)],
                logs := logs migratedWorld
                        @ [AlreadyApplied 1 ''1_init.sql'', AlreadyApplied 2 ''2_add_column.sql'',
                           AlreadyApplied 3 ''3_add_index.sql'']\<rparr>))
      = []"
proof -
  let ?w1 = "migratedWorld\<lparr>trace := tl (trace migratedWorld), logs := []\<rparr>"
  let ?w2 = "migratedWorld
           \<lparr>trace := trace migratedWorld
                      @ [(CallCheck 1, True), (CallCheck 2, True), (CallCheck 3, True)],
             logs := logs migratedWorld
                     @ [AlreadyApplied 1 ''1_init.sql'', AlreadyApplied 2 ''2_add_column.sql'',
                        AlreadyApplied 3 ''3_add_index.sql'']\<rparr>"
  let ?rows = "[\<lparr>version = 1, applied_at = Some 1000\<rparr>, \<lparr>version = 2, applied_at = Some 1000\<rparr>,
              \<lparr>version = 3, applied_at = Some 1000\<rparr>]"
  have l0: "ledger (readyWorld []) = Some []" by (simp add: readyWorld_def freshWorld_def)
  have vs: "Version ` set [initMigration, columnMigration, indexMigration] = {1, 2, 3}"
    by (simp add: three_versions)
  have l1: "ledger migratedWorld = Some ?rows" by (simp add: migratedWorld_def)
  have ap: "appended (readyWorld []) ?w1 = ?rows"
    by (simp add: appended_def rowsOf_def readyWorld_def freshWorld_def migratedWorld_def)
  have sn: "since migratedWorld ?w2 = [(CallCheck 1, True), (CallCheck 2, True), (CallCheck 3, True)]"
    by (simp add: since_def)
  note t1 = ledger_grows_only[OF three_applied l0]
  note t2 = ledger_grows_only[OF three_skipped l1]
  note a4 = t1[THEN conjunct2, THEN conjunct2, THEN conjunct2, THEN conjunct1]
  note a7 = t1[THEN conjunct2, THEN conjunct2, THEN conjunct2, THEN conjunct2, THEN conjunct2,
      THEN conjunct2]
  note b5 = t2[THEN conjunct2, THEN conjunct2, THEN conjunct2, THEN conjunct2, THEN conjunct1]
  have "\<lparr>version = 2, applied_at = Some 1000\<rparr> \<in> set (appended (readyWorld []) ?w1)"
    unfolding ap by simp
  from bspec[OF a4 this]
  have row: "applied_at \<lparr>version = 2, applied_at = Some 1000\<rparr> \<noteq> None"
    "\<exists>m \<in> set [initMigration, columnMigration, indexMigration]. \<exists>c.
         Version m = version \<lparr>version = 2, applied_at = Some 1000\<rparr>
         \<and> ReadFile (threeFs threeFiles) (Path m) = Some c
         \<and> (CallExec m c, True) \<in> set (since (readyWorld []) ?w1)"
    by (rule conjunct1, rule conjunct2)
  from a7 vs have r: "set (recorded ?w1) = {1, 2, 3}" by blast
  have "(2::int) \<in> set (map version ?rows)" by simp
  from bspec[OF b5 this]
  have "\<forall>e \<in> set (since migratedWorld ?w2). \<not> (isExecFor 2 (fst e) \<or> fst e = CallRecord 2)"
    by blast
  then have none: "filter (\<lambda>e. isExecFor 2 (fst e) \<or> fst e = CallRecord 2)
                     (since migratedWorld ?w2) = []"
    by (simp only: filter_empty_conv)
  show ?thesis by (intro conjI three_applied l0 vs ap row r three_skipped l1 sn none)
qed

theorem execute_and_record_not_atomic_witness:
  "applyPendingMigrations (threeFs threeFiles) [initMigration]
     (readyWorld [False, False, False, False, False, True])
     = (None, initDoneWorld [False, False, True])
   \<and> migrationAlreadyApplied (Version columnMigration) (initDoneWorld [False, False, True])
     = (Inr False,
        (initDoneWorld [False, False, True])
          \<lparr>faults := [False, True],
            trace := trace (initDoneWorld [False, False, True]) @ [(CallCheck 2, True)]\<rparr>)
   \<and> ReadFile (threeFs threeFiles) (Path columnMigration) = Some ''ALTER TABLE t''
   \<and> execBody columnMigration ''ALTER TABLE t''
       ((initDoneWorld [False, False, True])
          \<lparr>faults := [False, True],
            trace := trace (initDoneWorld [False, False, True]) @ [(CallCheck 2, True)]\<rparr>)
     = (False,
        (initDoneWorld [False, False, True])
          \<lparr>bodies := [''CREATE TABLE t'', ''ALTER TABLE t''], faults := [True],
            trace := trace (initDoneWorld [False, False, True])
                     @ [(CallCheck 2, True), (CallExec columnMigration ''ALTER TABLE t'', True)]\<rparr>)
   \<and> execInsert (Version columnMigration)
       ((initDoneWorld [False, False, True])
          \<lparr>bodies := [''CREATE TABLE t'', ''ALTER TABLE t''], faults := [True],
            trace := trace (initDoneWorld [False, False, True])
                     @ [(CallCheck 2, True), (CallExec columnMigration ''ALTER TABLE t'', True)]\<rparr>)
     = (True,
        (initDoneWorld [False, False, True])
          \<lparr>bodies := [''CREATE TABLE t'', ''ALTER TABLE t''], faults := [],
            trace := trace (initDoneWorld [False, False, True])
                     @ [(CallCheck 2, True), (CallExec columnMigration ''ALTER TABLE t'', True),
                        (CallRecord 2, False)]\<rparr>)
   \<and> True \<notin> set (take (length [initMigration] + 2) ([] :: bool list))
   \<and> applyPendingMigrations (threeFs threeFiles)
       ([initMigration] @ columnMigration # [indexMigration])
       (readyWorld [False, False, False, False, False, True])
     = (Some (FailedRecord 2),
        (initDoneWorld [False, False, True])
          \<lparr>bodies := [''CREATE TABLE t'', ''ALTER TABLE t''], faults := [],
            trace := trace (initDoneWorld [False, False, True])
                     @ [(CallCheck 2, True), (CallExec columnMigration ''ALTER TABLE t'', True),
                        (CallRecord 2, False)]\<rparr>)
   \<and> 2 \<notin> set (recorded
        ((initDoneWorld [False, False, True])
          \<lparr>bodies := [''CREATE TABLE t'', ''ALTER TABLE t''], faults := [],
            trace := trace (initDoneWorld [False, False, True])
                     @ [(CallCheck 2, True), (CallExec columnMigration ''ALTER TABLE t'', True),
                        (CallRecord 2, False)]\<rparr>))
   \<and> (\<exists>r w2 rest.
         applyPendingMigrations (threeFs threeFiles)
           ([initMigration] @ columnMigration # [indexMigration])
           ((initDoneWorld [False, False, True])
              \<lparr>bodies := [''CREATE TABLE t'', ''ALTER TABLE t''], faults := [],
                trace := trace (initDoneWorld [False, False, True])
                         @ [(CallCheck 2, True), (CallExec columnMigration ''ALTER TABLE t'', True),
                            (CallRecord 2, False)]\<rparr>)
           = (r, w2)
         \<and> since ((initDoneWorld [False, False, True])
              \<lparr>bodies := [''CREATE TABLE t'', ''ALTER TABLE t''], faults := [],
                trace := trace (initDoneWorld [False, False, True])
                         @ [(CallCheck 2, True), (CallExec columnMigration ''ALTER TABLE t'', True),
                            (CallRecord 2, False)]\<rparr>) w2
             = [(CallCheck 1, True), (CallCheck 2, True),
                (CallExec columnMigration ''ALTER TABLE t'', False)] @ rest)"
proof -
  let ?wa = "initDoneWorld [False, False, True]"
  let ?wb = "?wa\<lparr>faults := [False, True], trace := trace ?wa @ [(CallCheck 2, True)]\<rparr>"
  let ?wc = "?wa\<lparr>bodies := [''CREATE TABLE t'', ''ALTER TABLE t''], faults := [True],
            trace := trace ?wa
                     @ [(CallCheck 2, True), (CallExec columnMigration ''ALTER TABLE t'', True)]\<rparr>"
  let ?wd = "?wa\<lparr>bodies := [''CREATE TABLE t'', ''ALTER TABLE t''], faults := [],
            trace := trace ?wa
                     @ [(CallCheck 2, True), (CallExec columnMigration ''ALTER TABLE t'', True),
                        (CallRecord 2, False)]\<rparr>"
  have pre: "applyPendingMigrations (threeFs threeFiles) [initMigration]
     (readyWorld [False, False, False, False, False, True]) = (None, ?wa)"
    using init_done[of "threeFs threeFiles" "[False, False, False, False, False, True]",
        OF _ three_read(1)]
    by (cases "applyPendingMigrations (threeFs threeFiles) [initMigration]
          (readyWorld [False, False, False, False, False, True])") simp
  have chk: "migrationAlreadyApplied (Version columnMigration) ?wa = (Inr False, ?wb)"
    by (simp add: store_defs three_versions initDoneWorld_def)
  have nf: "True \<notin> set (take (length [initMigration] + 2) ([] :: bool list))" by simp
  note t = execute_and_record_not_atomic[OF pre chk three_read(2) column_record_fails,
      of "[indexMigration]" "[]"]
  have wdf: "?wd\<lparr>faults := []\<rparr> = ?wd" by simp
  have acc: "accepts ?wd (bodies ?wd) ''ALTER TABLE t'' = False"
    by (simp add: initDoneWorld_def sqlAccepts_def)
  note r1' = t[THEN conjunct1]
  note r2' = t[THEN conjunct2, THEN conjunct2, THEN conjunct2, THEN conjunct1]
  note r3' = t[THEN conjunct2, THEN conjunct2, THEN conjunct2, THEN conjunct2, THEN conjunct2,
      THEN mp, OF nf]
  from r1' have r1: "applyPendingMigrations (threeFs threeFiles)
       ([initMigration] @ columnMigration # [indexMigration])
       (readyWorld [False, False, False, False, False, True]) = (Some (FailedRecord 2), ?wd)"
    by (simp add: three_versions)
  from r2' have r2: "2 \<notin> set (recorded ?wd)" by (simp add: three_versions)
  from r3' have "\<exists>r w2 rest.
         applyPendingMigrations (threeFs threeFiles)
           ([initMigration] @ columnMigration # [indexMigration]) (?wd\<lparr>faults := []\<rparr>) = (r, w2)
         \<and> since ?wd w2
             = map (\<lambda>m. (CallCheck (Version m), True)) [initMigration]
               @ [(CallCheck (Version columnMigration), True),
                  (CallExec columnMigration ''ALTER TABLE t'',
                     accepts ?wd (bodies ?wd) ''ALTER TABLE t'')]
               @ rest" .
  then have r3: "\<exists>r w2 rest.
         applyPendingMigrations (threeFs threeFiles)
           ([initMigration] @ columnMigration # [indexMigration]) ?wd = (r, w2)
         \<and> since ?wd w2
             = [(CallCheck 1, True), (CallCheck 2, True),
                (CallExec columnMigration ''ALTER TABLE t'', False)] @ rest"
    unfolding wdf acc by (simp add: three_versions)
  show ?thesis by (intro conjI pre chk three_read(2) column_record_fails nf r1 r2 r3)
qed

end
